theory Spec2Isabelle
  imports Main "HOL-Library.Sublist"
begin

section \<open>Python text primitives used by the measurer\<close>

text \<open>
  A Python \<open>str\<close> is modelled as a \<open>string\<close>: one \<open>char\<close> per code point, for the
  code points below 256. Integers are Python's unbounded \<open>int\<close>.
\<close>

datatype error = ValueError

text \<open>\<open>s.split(sep)\<close> for a one-character separator: never empty, \<open>''.split(sep) = ['']\<close>.\<close>

fun split_acc :: "char \<Rightarrow> string \<Rightarrow> string \<Rightarrow> string list" where
  "split_acc sep cur [] = [rev cur]"
| "split_acc sep cur (c # cs) =
     (if c = sep then rev cur # split_acc sep [] cs else split_acc sep (c # cur) cs)"

definition split :: "string \<Rightarrow> char \<Rightarrow> string list" where
  "split s sep = split_acc sep [] s"

text \<open>\<open>sep.join(xs)\<close>.\<close>

fun join :: "string \<Rightarrow> string list \<Rightarrow> string" where
  "join sep [] = []"
| "join sep [x] = x"
| "join sep (x # y # ys) = x @ sep @ join sep (y # ys)"

text \<open>\<open>p in s\<close> for strings: \<open>p\<close> occurs in \<open>s\<close> as a contiguous run.\<close>

fun contains :: "string \<Rightarrow> string \<Rightarrow> bool" where
  "contains p [] = (p = [])"
| "contains p (c # cs) = (prefix p (c # cs) \<or> contains p cs)"

text \<open>\<open>str(i)\<close> for an \<open>int\<close>: decimal digits, a leading \<open>-\<close> when negative.\<close>

definition digit_char :: "nat \<Rightarrow> char" where
  "digit_char d = ''0123456789'' ! d"

fun str_nat :: "nat \<Rightarrow> string" where
  "str_nat n = (if n < 10 then [digit_char n] else str_nat (n div 10) @ [digit_char (n mod 10)])"

declare str_nat.simps [simp del]

definition str :: "int \<Rightarrow> string" where
  "str i = (if i < 0 then CHR ''-'' # str_nat (nat (- i)) else str_nat (nat i))"

text \<open>
  \<open>int(s)\<close> for a \<open>str\<close>, base 10: white space is stripped on both sides (the code points
  9 to 13, 32, 133 and 160 below 256), then an optional sign, then decimal digits in
  groups separated by single underscores. Anything else raises \<open>ValueError\<close>.
\<close>

definition py_isspace :: "char \<Rightarrow> bool" where
  "py_isspace c = (of_char c \<in> {9, 10, 11, 12, 13, 32, 133, 160 :: nat})"

definition is_digit :: "char \<Rightarrow> bool" where
  "is_digit c = (48 \<le> (of_char c :: nat) \<and> (of_char c :: nat) \<le> 57)"

definition digit_val :: "char \<Rightarrow> nat" where
  "digit_val c = of_char c - 48"

fun parse_digits :: "nat \<Rightarrow> bool \<Rightarrow> string \<Rightarrow> nat option" where
  "parse_digits acc prev [] = (if prev then Some acc else None)"
| "parse_digits acc prev (c # cs) =
     (if is_digit c then parse_digits (10 * acc + digit_val c) True cs
      else if c = CHR ''_'' \<and> prev then parse_digits acc False cs
      else None)"

definition strip :: "string \<Rightarrow> string" where
  "strip s = rev (dropWhile py_isspace (rev (dropWhile py_isspace s)))"

definition py_int :: "string \<Rightarrow> error + int" where
  "py_int s =
     (case strip s of
        c # r \<Rightarrow>
          if c = CHR ''-'' then
            (case parse_digits 0 False r of None \<Rightarrow> Inl ValueError | Some n \<Rightarrow> Inr (- int n))
          else if c = CHR ''+'' then
            (case parse_digits 0 False r of None \<Rightarrow> Inl ValueError | Some n \<Rightarrow> Inr (int n))
          else
            (case parse_digits 0 False (c # r) of None \<Rightarrow> Inl ValueError | Some n \<Rightarrow> Inr (int n))
      | [] \<Rightarrow> Inl ValueError)"

section \<open>The log parsers\<close>

text \<open>
  Both measurer modules define \<open>parseFixReverterLog\<close>; the one of
  \<open>fixreverter_run_coverage.py\<close> returns a \<open>FixReverterCov\<close>, the one of
  \<open>fixreverter_run_crashes.py\<close> a single set. \<open>int(line.split(' ')[-1])\<close> raises
  \<open>ValueError\<close> on a token that is no integer, and nothing catches it. The second
  field of \<open>FixReverterCov\<close> is \<open>triggers\<close> in the source; it is \<open>cov_triggers\<close> here,
  since \<open>Crash\<close> has a field of that name too.
\<close>

definition triggered_line :: "string \<Rightarrow> bool" where
  "triggered_line line = contains ''triggered bug index'' line"

definition reached_line :: "string \<Rightarrow> bool" where
  "reached_line line = contains ''reached bug index'' line"

definition injectionID :: "string \<Rightarrow> error + int" where
  "injectionID line = py_int (last (split line CHR '' ''))"

datatype FixReverterCov = FixReverterCov (reaches: "int set") (cov_triggers: "int set")

fun coverage_lines :: "string list \<Rightarrow> int set \<Rightarrow> int set \<Rightarrow> error + FixReverterCov" where
  "coverage_lines [] rs ts = Inr (FixReverterCov rs ts)"
| "coverage_lines (line # rest) rs ts =
     (if triggered_line line then
        (case injectionID line of
           Inl e \<Rightarrow> Inl e
         | Inr i \<Rightarrow> coverage_lines rest (insert i rs) (insert i ts))
      else if reached_line line then
        (case injectionID line of
           Inl e \<Rightarrow> Inl e
         | Inr i \<Rightarrow> coverage_lines rest (insert i rs) ts)
      else coverage_lines rest rs ts)"

definition parseFixReverterLog_coverage :: "string \<Rightarrow> error + FixReverterCov" where
  "parseFixReverterLog_coverage output = coverage_lines (split output CHR 0x0A) {} {}"

fun crashes_lines :: "string list \<Rightarrow> int set \<Rightarrow> error + int set" where
  "crashes_lines [] ts = Inr ts"
| "crashes_lines (line # rest) ts =
     (if triggered_line line then
        (case injectionID line of
           Inl e \<Rightarrow> Inl e
         | Inr i \<Rightarrow> crashes_lines rest (insert i ts))
      else crashes_lines rest ts)"

definition parseFixReverterLog :: "string \<Rightarrow> error + int set" where
  "parseFixReverterLog output = crashes_lines (split output CHR 0x0A) {}"

section \<open>Paths\<close>

text \<open>\<open>os.path.basename\<close>, \<open>os.path.dirname\<close> and \<open>os.path.join\<close> of \<open>posixpath\<close>.\<close>

definition basename :: "string \<Rightarrow> string" where
  "basename p = last (split p CHR ''/'')"

definition dirname :: "string \<Rightarrow> string" where
  "dirname p =
     (let head = take (length p - length (basename p)) p in
      if head \<noteq> [] \<and> filter (\<lambda>c. c \<noteq> CHR ''/'') head \<noteq> []
      then rev (dropWhile (\<lambda>c. c = CHR ''/'') (rev head))
      else head)"

definition path_join :: "string \<Rightarrow> string \<Rightarrow> string" where
  "path_join a b =
     (if prefix ''/'' b then b
      else if a = [] \<or> last a = CHR ''/'' then a @ b
      else a @ ''/'' @ b)"

section \<open>The collaborators outside the repository\<close>

text \<open>
  \<open>new_process.execute\<close> returns a \<open>ProcessResult\<close>; \<open>StackParser.parse\<close> returns a crash
  record of which \<open>isCrash\<close> reads the type and the state (a state may be absent, Python's
  \<open>None\<close>).
\<close>

record process_result =
  retcode :: int
  "output" :: string
  timed_out :: bool

record crash_info =
  crash_type :: string
  crash_state :: "string option"

text \<open>
  One call of \<open>new_process.execute\<close>: the command line, the value of the environment
  variable \<open>FIXREVERTER\<close> as \<open>process_crash\<close> has set it (\<open>None\<close> while it has not), the
  working directory and the watchdog timeout. \<open>expect_zero=False\<close> and
  \<open>kill_children=True\<close> are the same in every call.
\<close>

record call =
  command :: "string list"
  fixreverter :: "string option"
  cwd :: string
  timeout :: int

text \<open>
  What the module takes from outside, over a world state \<open>'w\<close> that running the binary
  may change: the process runner, clusterfuzz's stack parser (fuzz target name, then
  output), the order in which a Python \<open>set\<close> of integers is iterated, \<open>os.walk\<close>,
  \<open>os.path.relpath\<close>, and the two constants of \<open>run_coverage\<close>.
\<close>

record 'w externals =
  execute :: "'w \<Rightarrow> call \<Rightarrow> process_result \<times> 'w"
  stack_parse :: "string \<Rightarrow> string \<Rightarrow> crash_info"
  set_iter :: "int set \<Rightarrow> int list"
  os_walk :: "string \<Rightarrow> (string \<times> string list \<times> string list) list"
  relpath :: "string \<Rightarrow> string \<Rightarrow> string"
  UNIT_TIMEOUT :: int
  RSS_LIMIT_MB :: int

section \<open>The outcome classifier\<close>

definition isCrash :: "('w, 'x) externals_scheme \<Rightarrow> process_result \<Rightarrow> string \<Rightarrow> bool" where
  "isCrash ext result app_binary =
     (if output result = [] then False
      else
        let fuzz_target = basename app_binary;
            crash_result = stack_parse ext fuzz_target (output result)
        in if crash_state crash_result = None \<or> crash_state crash_result = Some [] then False
           else if crash_type crash_result \<in> {''Timeout'', ''Out-of-memory''} then False
           else True)"

section \<open>The combinatorial minimizer\<close>

text \<open>\<open>itertools.combinations(xs, n)\<close>: the sub-tuples of length \<open>n\<close>, in index order.\<close>

fun combinations :: "'a list \<Rightarrow> nat \<Rightarrow> 'a list list" where
  "combinations xs 0 = [[]]"
| "combinations [] (Suc n) = []"
| "combinations (x # xs) (Suc n) = map ((#) x) (combinations xs n) @ combinations xs (Suc n)"

text \<open>
  The candidates of a minimization, in the order the two loops of \<open>process_crash\<close> form
  them: all sizes from 1 to the number of triggers, ascending.
\<close>

definition candidates :: "'a list \<Rightarrow> 'a list list" where
  "candidates ts = concat (map (combinations ts) [1 ..< length ts + 1])"

text \<open>
  The call of one run: \<open>cand = None\<close> is the baseline run, \<open>Some currset\<close> a trial with
  \<open>env["FIXREVERTER"] = 'on ' + ' '.join([str(i) for i in currset])\<close>.
\<close>

definition trial_call ::
  "('w, 'x) externals_scheme \<Rightarrow> string \<Rightarrow> string \<Rightarrow> int list option \<Rightarrow> call" where
  "trial_call ext app_binary crash_testcase_path cand =
     \<lparr>command =
        [app_binary,
         ''-timeout='' @ str (UNIT_TIMEOUT ext),
         ''-rss_limit_mb='' @ str (RSS_LIMIT_MB ext),
         crash_testcase_path],
      fixreverter = map_option (\<lambda>currset. ''on '' @ join '' '' (map str currset)) cand,
      cwd = dirname app_binary,
      timeout = UNIT_TIMEOUT ext + 5\<rparr>"

text \<open>
  The runs are recorded as they happen: a trial is the candidate of the run (\<open>None\<close> for
  the baseline) with the verdict of \<open>isCrash\<close> on its result. The record is not a value
  of the source; it is the trace of its calls of \<open>new_process.execute\<close>.
\<close>

type_synonym trial = "int list option \<times> bool"

text \<open>The inner loop, \<open>for currset in itertools.combinations(triggers, n)\<close>.\<close>

fun currset_loop ::
  "('w, 'x) externals_scheme \<Rightarrow> 'w \<Rightarrow> string \<Rightarrow> string \<Rightarrow> int list list \<Rightarrow>
   int list list \<Rightarrow> trial list \<Rightarrow> int list list \<times> trial list \<times> 'w" where
  "currset_loop ext w app_binary path [] crashes log = (crashes, log, w)"
| "currset_loop ext w app_binary path (currset # rest) crashes log =
     (if list_ex (\<lambda>crash. set crash \<subseteq> set currset) crashes
      then currset_loop ext w app_binary path rest crashes log
      else
        (case execute ext w (trial_call ext app_binary path (Some currset)) of
           (currsetResult, w') \<Rightarrow>
             if isCrash ext currsetResult app_binary
             then currset_loop ext w' app_binary path rest
                    (crashes @ [currset]) (log @ [(Some currset, True)])
             else currset_loop ext w' app_binary path rest
                    crashes (log @ [(Some currset, False)])))"

text \<open>The outer loop, \<open>for n in range(1, len(triggers)+1)\<close>, over the sizes left.\<close>

fun size_loop ::
  "('w, 'x) externals_scheme \<Rightarrow> 'w \<Rightarrow> string \<Rightarrow> string \<Rightarrow> int list \<Rightarrow> nat list \<Rightarrow>
   int list list \<Rightarrow> trial list \<Rightarrow> int list list \<times> trial list \<times> 'w" where
  "size_loop ext w app_binary path ts [] crashes log = (crashes, log, w)"
| "size_loop ext w app_binary path ts (n # ns) crashes log =
     (case currset_loop ext w app_binary path (combinations ts n) crashes log of
        (crashes', log', w') \<Rightarrow> size_loop ext w' app_binary path ts ns crashes' log')"

text \<open>
  \<open>process_crash\<close> returns the list of crash sets, or raises what the parser raises; the
  model returns the trace of runs and the world after them as well.
\<close>

definition process_crash ::
  "('w, 'x) externals_scheme \<Rightarrow> 'w \<Rightarrow> string \<Rightarrow> string \<Rightarrow> string \<Rightarrow>
   (error + int list list) \<times> trial list \<times> 'w" where
  "process_crash ext w app_binary crash_testcase_path crashes_dir =
     (let crash_filename = basename crash_testcase_path in
      if prefix ''oom-'' crash_filename \<or> prefix ''timeout-'' crash_filename
      then (Inr [], [], w)
      else
        (case execute ext w (trial_call ext app_binary crash_testcase_path None) of
           (result, w1) \<Rightarrow>
             if \<not> isCrash ext result app_binary then (Inr [], [(None, False)], w1)
             else
               (case parseFixReverterLog (output result) of
                  Inl e \<Rightarrow> (Inl e, [(None, True)], w1)
                | Inr trigs \<Rightarrow>
                    if card trigs = 0 then (Inr [], [(None, True)], w1)
                    else
                      (case size_loop ext w1 app_binary crash_testcase_path
                              (set_iter ext trigs) [1 ..< card trigs + 1] [] [(None, True)] of
                         (crashes, log, w2) \<Rightarrow> (Inr crashes, log, w2)))))"

section \<open>The corpus walk\<close>

datatype Crash = Crash (crash_testcase: string) (triggers: "int list")

definition get_crash_key :: "Crash \<Rightarrow> string" where
  "get_crash_key crash_result = join ''+'' (map str (sort (triggers crash_result)))"

text \<open>
  The dictionary \<open>crashes\<close> is a map from keys to crashes. Each store
  \<open>crashes[_get_crash_key(crash)] = crash\<close> is recorded, in program order, in a trace
  that the source does not have.
\<close>

type_synonym crash_map = "string \<rightharpoonup> Crash"
type_synonym store = "string \<times> Crash"

fun crashset_loop ::
  "('w, 'x) externals_scheme \<Rightarrow> string \<Rightarrow> string \<Rightarrow> int list list \<Rightarrow>
   crash_map \<Rightarrow> store list \<Rightarrow> crash_map \<times> store list" where
  "crashset_loop ext path crashes_dir [] crashes stores = (crashes, stores)"
| "crashset_loop ext path crashes_dir (crashset # rest) crashes stores =
     (let crash = Crash (relpath ext path crashes_dir) crashset in
      crashset_loop ext path crashes_dir rest
        (crashes(get_crash_key crash \<mapsto> crash)) (stores @ [(get_crash_key crash, crash)]))"

fun filename_loop ::
  "('w, 'x) externals_scheme \<Rightarrow> 'w \<Rightarrow> string \<Rightarrow> string \<Rightarrow> string \<Rightarrow> string list \<Rightarrow>
   crash_map \<Rightarrow> store list \<Rightarrow> (error + crash_map \<times> store list) \<times> 'w" where
  "filename_loop ext w app_binary crashes_dir root [] crashes stores =
     (Inr (crashes, stores), w)"
| "filename_loop ext w app_binary crashes_dir root (filename # rest) crashes stores =
     (let crash_testcase_path = path_join root filename in
      case process_crash ext w app_binary crash_testcase_path crashes_dir of
        (Inl e, log, w') \<Rightarrow> (Inl e, w')
      | (Inr crashesets, log, w') \<Rightarrow>
          (case crashset_loop ext crash_testcase_path crashes_dir crashesets crashes stores of
             (crashes', stores') \<Rightarrow>
               filename_loop ext w' app_binary crashes_dir root rest crashes' stores'))"

fun walk_loop ::
  "('w, 'x) externals_scheme \<Rightarrow> 'w \<Rightarrow> string \<Rightarrow> string \<Rightarrow>
   (string \<times> string list \<times> string list) list \<Rightarrow>
   crash_map \<Rightarrow> store list \<Rightarrow> (error + crash_map \<times> store list) \<times> 'w" where
  "walk_loop ext w app_binary crashes_dir [] crashes stores = (Inr (crashes, stores), w)"
| "walk_loop ext w app_binary crashes_dir ((root, dirs, filenames) # rest) crashes stores =
     (case filename_loop ext w app_binary crashes_dir root filenames crashes stores of
        (Inl e, w') \<Rightarrow> (Inl e, w')
      | (Inr (crashes', stores'), w') \<Rightarrow>
          walk_loop ext w' app_binary crashes_dir rest crashes' stores')"

definition do_crashes_run ::
  "('w, 'x) externals_scheme \<Rightarrow> 'w \<Rightarrow> string \<Rightarrow> string \<Rightarrow>
   (error + crash_map \<times> store list) \<times> 'w" where
  "do_crashes_run ext w app_binary crashes_dir =
     walk_loop ext w app_binary crashes_dir (os_walk ext crashes_dir) Map.empty []"

section \<open>Notions the properties are stated with\<close>

text \<open>
  The verdict of the classifier on the run of one candidate, started in world \<open>w\<close>.
\<close>

definition verdict ::
  "('w, 'x) externals_scheme \<Rightarrow> string \<Rightarrow> string \<Rightarrow> 'w \<Rightarrow> int list \<Rightarrow> bool" where
  "verdict ext app_binary path w currset =
     isCrash ext (fst (execute ext w (trial_call ext app_binary path (Some currset)))) app_binary"

text \<open>The candidates of a trace whose runs were classified as crashes, in order.\<close>

definition confirmed :: "trial list \<Rightarrow> int list list" where
  "confirmed log = map (the \<circ> fst) (filter (\<lambda>e. fst e \<noteq> None \<and> snd e) log)"

text \<open>
  \<open>pruned_before e1 e2\<close>: if \<open>e1\<close> is a confirmed crash set, the candidate of \<open>e2\<close> is no
  superset of it.
\<close>

definition pruned_before :: "trial \<Rightarrow> trial \<Rightarrow> bool" where
  "pruned_before e1 e2 = (\<forall>a b. e1 = (Some a, True) \<and> fst e2 = Some b \<longrightarrow> \<not> set a \<subseteq> set b)"

definition incomparable :: "'a list \<Rightarrow> 'a list \<Rightarrow> bool" where
  "incomparable a b = (\<not> set a \<subseteq> set b \<and> \<not> set b \<subseteq> set a)"

text \<open>
  The sets of \<open>D\<close> that crash and have no crashing proper subset in \<open>D\<close>; and a list of
  crash sets that has, below every crashing set of \<open>D\<close>, one of its own.
\<close>

definition minimal_in :: "(int set \<Rightarrow> bool) \<Rightarrow> int set set \<Rightarrow> int set set" where
  "minimal_in crash D = {S \<in> D. crash S \<and> (\<forall>S'\<in>D. crash S' \<longrightarrow> \<not> S' \<subset> S)}"

definition covers :: "(int set \<Rightarrow> bool) \<Rightarrow> int list list \<Rightarrow> int set set \<Rightarrow> bool" where
  "covers crash R D = (\<forall>S\<in>D. crash S \<longrightarrow> (\<exists>k\<in>set R. set k \<subseteq> S))"

text \<open>
  The dictionary of the corpus walk against the trace of its stores: the dictionary is
  the trace read from its end, and each pair is stored under the key of its crash.
\<close>

definition stored :: "crash_map \<Rightarrow> store list \<Rightarrow> bool" where
  "stored crashes stores =
     (crashes = map_of (rev stores) \<and> (\<forall>e\<in>set stores. fst e = get_crash_key (snd e)))"

section \<open>A concrete binary, for running the model\<close>

text \<open>
  An instrumented binary with injections 1 and 2, told apart by the name of the
  testcase: \<open>benign\<close> never crashes; \<open>plain\<close> crashes whatever is enabled and triggers
  nothing; \<open>always\<close> crashes whatever is enabled and triggers injection 1; \<open>either\<close>
  crashes when injection 1 or injection 2 is enabled; any other testcase crashes when
  injection 1 is enabled. A baseline run has all injections enabled. The world counts
  the runs since the baseline run; a baseline run started in world 7 logs one more
  \<open>reached\<close> line.
\<close>

definition demo_stack_parse :: "string \<Rightarrow> string \<Rightarrow> crash_info" where
  "demo_stack_parse fuzz_target out =
     (if contains ''ERROR'' out
      then \<lparr>crash_type = ''Heap-buffer-overflow'', crash_state = Some ''png_read''\<rparr>
      else if contains ''ALARM'' out
      then \<lparr>crash_type = ''Timeout'', crash_state = Some ''png_read''\<rparr>
      else \<lparr>crash_type = [], crash_state = Some []\<rparr>)"

definition demo_crashing :: "string \<Rightarrow> string option \<Rightarrow> bool" where
  "demo_crashing name directive =
     (case directive of
        None \<Rightarrow> name \<noteq> ''benign''
      | Some d \<Rightarrow>
          name = ''always'' \<or> name = ''plain'' \<or> ''1'' \<in> set (split d CHR '' '') \<or>
          (name = ''either'' \<and> ''2'' \<in> set (split d CHR '' '')))"

definition demo_execute :: "nat \<Rightarrow> call \<Rightarrow> process_result \<times> nat" where
  "demo_execute w c =
     (let name = basename (last (command c)) in
      (\<lparr>retcode = (if demo_crashing name (fixreverter c) then 1 else 0),
        output =
          (if w = 7 \<and> fixreverter c = None then ''reached bug index 9\<newline>'' else [])
          @ (if name = ''plain'' then [] else ''triggered bug index 1\<newline>'')
          @ (if name = ''plain'' \<or> name = ''always'' then [] else ''triggered bug index 2\<newline>'')
          @ (if demo_crashing name (fixreverter c) then ''ERROR'' else ''ok''),
        timed_out = False\<rparr>,
       if fixreverter c = None then 1 else Suc w))"

definition demo :: "nat externals" where
  "demo =
     \<lparr>execute = demo_execute,
      stack_parse = demo_stack_parse,
      set_iter = sorted_list_of_set,
      os_walk = (\<lambda>d. [(d, [''sub''], [''a'', ''oom-b'', ''always''])]),
      relpath = (\<lambda>p d. drop (Suc (length d)) p),
      UNIT_TIMEOUT = 10,
      RSS_LIMIT_MB = 2048\<rparr>"

lemmas demo_simps =
  demo_def demo_execute_def demo_crashing_def demo_stack_parse_def process_crash_def
  trial_call_def isCrash_def verdict_def parseFixReverterLog_def split_def basename_def
  dirname_def triggered_line_def injectionID_def py_int_def strip_def py_isspace_def
  is_digit_def digit_val_def str_def str_nat.simps digit_char_def

section \<open>Properties of the log parsers\<close>

lemma error_is_ValueError: "(e :: error) = ValueError"
  by (cases e) simp

lemma coverage_lines_spec:
  "coverage_lines ls rs ts =
     (if \<forall>l\<in>set ls. triggered_line l \<or> reached_line l \<longrightarrow> (\<exists>i. injectionID l = Inr i)
      then Inr (FixReverterCov
                 (rs \<union> {i. \<exists>l\<in>set ls. (triggered_line l \<or> reached_line l) \<and> injectionID l = Inr i})
                 (ts \<union> {i. \<exists>l\<in>set ls. triggered_line l \<and> injectionID l = Inr i}))
      else Inl ValueError)"
proof (induction ls arbitrary: rs ts)
  case Nil
  show ?case by simp
next
  case (Cons l ls)
  show ?case
  proof (cases "injectionID l")
    case (Inl e)
    then show ?thesis
      using Cons.IH [of rs ts] by (auto simp: error_is_ValueError)
  next
    case (Inr i)
    then show ?thesis
      using Cons.IH [of "insert i rs" "insert i ts"] Cons.IH [of "insert i rs" ts] Cons.IH [of rs ts]
      by (auto split: if_splits)
  qed
qed

lemma crashes_lines_spec:
  "crashes_lines ls ts =
     (if \<forall>l\<in>set ls. triggered_line l \<longrightarrow> (\<exists>i. injectionID l = Inr i)
      then Inr (ts \<union> {i. \<exists>l\<in>set ls. triggered_line l \<and> injectionID l = Inr i})
      else Inl ValueError)"
proof (induction ls arbitrary: ts)
  case Nil
  show ?case by simp
next
  case (Cons l ls)
  show ?case
  proof (cases "injectionID l")
    case (Inl e)
    then show ?thesis
      using Cons.IH [of ts] by (auto simp: error_is_ValueError)
  next
    case (Inr i)
    then show ?thesis
      using Cons.IH [of "insert i ts"] Cons.IH [of ts]
      by (auto split: if_splits)
  qed
qed

lemma crashes_lines_filter:
  "crashes_lines (filter triggered_line ls) ts = crashes_lines ls ts"
  by (induction ls arbitrary: ts) (auto split: sum.splits)

text \<open>
  C5. The coverage parser, on every output text: when it returns, the triggered set is
  within the reached set, the ID of each line with the triggered marker is in both sets,
  the ID of each line with only the reached marker is in the reached set, and the two
  sets hold nothing else; when no line has a marker it returns two empty sets; and it
  returns exactly when every line with a marker ends in an integer.
\<close>

theorem parse_coverage_sets:
  "(\<forall>cov. parseFixReverterLog_coverage out = Inr cov \<longrightarrow>
      cov_triggers cov \<subseteq> reaches cov \<and>
      (\<forall>l\<in>set (split out CHR 0x0A). triggered_line l \<longrightarrow>
         (\<exists>i. injectionID l = Inr i \<and> i \<in> reaches cov \<and> i \<in> cov_triggers cov)) \<and>
      (\<forall>l\<in>set (split out CHR 0x0A). \<not> triggered_line l \<and> reached_line l \<longrightarrow>
         (\<exists>i. injectionID l = Inr i \<and> i \<in> reaches cov)) \<and>
      cov_triggers cov =
        {i. \<exists>l\<in>set (split out CHR 0x0A). triggered_line l \<and> injectionID l = Inr i} \<and>
      reaches cov =
        {i. \<exists>l\<in>set (split out CHR 0x0A).
              (triggered_line l \<or> reached_line l) \<and> injectionID l = Inr i}) \<and>
   ((\<forall>l\<in>set (split out CHR 0x0A). \<not> triggered_line l \<and> \<not> reached_line l) \<longrightarrow>
      parseFixReverterLog_coverage out = Inr (FixReverterCov {} {})) \<and>
   ((\<exists>cov. parseFixReverterLog_coverage out = Inr cov) \<longleftrightarrow>
      (\<forall>l\<in>set (split out CHR 0x0A). triggered_line l \<or> reached_line l \<longrightarrow>
         (\<exists>i. injectionID l = Inr i)))"
proof (intro conjI allI impI)
  fix cov assume ret: "parseFixReverterLog_coverage out = Inr cov"
  let ?ls = "split out CHR 0x0A"
  have wf: "\<forall>l\<in>set ?ls. triggered_line l \<or> reached_line l \<longrightarrow> (\<exists>i. injectionID l = Inr i)"
    using ret unfolding parseFixReverterLog_coverage_def coverage_lines_spec [of ?ls "{}" "{}"]
    by (simp split: if_splits)
  have cov: "cov = FixReverterCov
      {i. \<exists>l\<in>set ?ls. (triggered_line l \<or> reached_line l) \<and> injectionID l = Inr i}
      {i. \<exists>l\<in>set ?ls. triggered_line l \<and> injectionID l = Inr i}"
    using ret unfolding parseFixReverterLog_coverage_def coverage_lines_spec [of ?ls "{}" "{}"]
    by (simp split: if_splits)
  show "cov_triggers cov \<subseteq> reaches cov" unfolding cov by auto
  show "\<forall>l\<in>set ?ls. triggered_line l \<longrightarrow>
      (\<exists>i. injectionID l = Inr i \<and> i \<in> reaches cov \<and> i \<in> cov_triggers cov)"
    using wf unfolding cov by fastforce
  show "\<forall>l\<in>set ?ls. \<not> triggered_line l \<and> reached_line l \<longrightarrow>
      (\<exists>i. injectionID l = Inr i \<and> i \<in> reaches cov)"
    using wf unfolding cov by fastforce
  show "cov_triggers cov = {i. \<exists>l\<in>set ?ls. triggered_line l \<and> injectionID l = Inr i}"
    unfolding cov by simp
  show "reaches cov =
      {i. \<exists>l\<in>set ?ls. (triggered_line l \<or> reached_line l) \<and> injectionID l = Inr i}"
    unfolding cov by simp
next
  assume "\<forall>l\<in>set (split out CHR 0x0A). \<not> triggered_line l \<and> \<not> reached_line l"
  then show "parseFixReverterLog_coverage out = Inr (FixReverterCov {} {})"
    unfolding parseFixReverterLog_coverage_def
      coverage_lines_spec [of "split out CHR 0x0A" "{}" "{}"]
    by auto
next
  show "(\<exists>cov. parseFixReverterLog_coverage out = Inr cov) \<longleftrightarrow>
      (\<forall>l\<in>set (split out CHR 0x0A). triggered_line l \<or> reached_line l \<longrightarrow>
         (\<exists>i. injectionID l = Inr i))"
    unfolding parseFixReverterLog_coverage_def
      coverage_lines_spec [of "split out CHR 0x0A" "{}" "{}"]
    by simp
qed

lemmas parse_simps =
  parseFixReverterLog_coverage_def parseFixReverterLog_def split_def triggered_line_def
  reached_line_def injectionID_def py_int_def strip_def py_isspace_def is_digit_def
  digit_val_def

theorem parse_coverage_sets_witness:
  "parseFixReverterLog_coverage ''foo: triggered bug index 4\<newline>bar: reached bug index 4''
     = Inr (FixReverterCov {4} {4}) \<and>
   parseFixReverterLog_coverage ''bar: reached bug index 7'' = Inr (FixReverterCov {7} {}) \<and>
   parseFixReverterLog_coverage ''no marker\<newline>at all'' = Inr (FixReverterCov {} {}) \<and>
   cov_triggers (FixReverterCov {4} {4}) \<subseteq> reaches (FixReverterCov {4} {4})"
proof -
  have 1: "parseFixReverterLog_coverage ''foo: triggered bug index 4\<newline>bar: reached bug index 4''
     = Inr (FixReverterCov {4} {4})"
    by (simp add: parse_simps)
  have 2: "parseFixReverterLog_coverage ''bar: reached bug index 7'' = Inr (FixReverterCov {7} {})"
    by (simp add: parse_simps)
  have 3: "\<forall>l\<in>set (split ''no marker\<newline>at all'' CHR 0x0A). \<not> triggered_line l \<and> \<not> reached_line l"
    by (simp add: parse_simps)
  have 4: "parseFixReverterLog_coverage ''no marker\<newline>at all'' = Inr (FixReverterCov {} {})"
    using parse_coverage_sets [of "''no marker\<newline>at all''"] 3 by blast
  have 5: "cov_triggers (FixReverterCov {4} {4}) \<subseteq> reaches (FixReverterCov {4} {4})"
    using parse_coverage_sets [of "''foo: triggered bug index 4\<newline>bar: reached bug index 4''"] 1
    by blast
  show ?thesis using 1 2 4 5 by blast
qed

text \<open>
  C6, as the code has it. A line with a marker whose last space-separated token is no
  integer makes the whole parse raise \<open>ValueError\<close>: no ID of the output is returned. In
  the crashes parser only lines with the triggered marker count; in the coverage parser
  lines with either marker do.
\<close>

theorem malformed_line_aborts:
  "((\<exists>l\<in>set (split out CHR 0x0A). triggered_line l \<and> injectionID l = Inl ValueError) \<longrightarrow>
      parseFixReverterLog out = Inl ValueError \<and>
      parseFixReverterLog_coverage out = Inl ValueError) \<and>
   ((\<exists>l\<in>set (split out CHR 0x0A). reached_line l \<and> injectionID l = Inl ValueError) \<longrightarrow>
      parseFixReverterLog_coverage out = Inl ValueError)"
  unfolding parseFixReverterLog_def parseFixReverterLog_coverage_def
    crashes_lines_spec [of "split out CHR 0x0A" "{}"]
    coverage_lines_spec [of "split out CHR 0x0A" "{}" "{}"]
  by auto

theorem malformed_line_aborts_witness:
  "parseFixReverterLog ''b: triggered bug index 4\<newline>a: triggered bug index x'' = Inl ValueError \<and>
   parseFixReverterLog_coverage ''b: triggered bug index 4\<newline>a: triggered bug index x''
     = Inl ValueError"
proof -
  have "\<exists>l\<in>set (split ''b: triggered bug index 4\<newline>a: triggered bug index x'' CHR 0x0A).
          triggered_line l \<and> injectionID l = Inl ValueError"
    by (simp add: parse_simps)
  then show ?thesis
    using malformed_line_aborts [of "''b: triggered bug index 4\<newline>a: triggered bug index x''"]
    by blast
qed

text \<open>
  The claim as stated fails: of two lines with the triggered marker, one ending in
  \<open>x\<close> and one ending in \<open>4\<close>, the ID 4 is not returned by either parser.
\<close>

theorem malformed_line_counterexample:
  "injectionID ''a: triggered bug index x'' = Inl ValueError \<and>
   injectionID ''b: triggered bug index 4'' = Inr 4 \<and>
   parseFixReverterLog ''a: triggered bug index x\<newline>b: triggered bug index 4'' = Inl ValueError \<and>
   parseFixReverterLog_coverage ''a: triggered bug index x\<newline>b: triggered bug index 4''
     = Inl ValueError"
  by (simp add: parse_simps)

section \<open>Properties of the outcome classifier\<close>

text \<open>
  C7. \<open>isCrash\<close> is false on an empty output, false when the stack parser gives an empty
  or absent crash state, false when the crash type is \<open>Timeout\<close> or \<open>Out-of-memory\<close>, and
  true in every other case.
\<close>

theorem isCrash_cases:
  "(output result = [] \<longrightarrow> \<not> isCrash ext result app_binary) \<and>
   (crash_state (stack_parse ext (basename app_binary) (output result)) = None \<or>
    crash_state (stack_parse ext (basename app_binary) (output result)) = Some []
      \<longrightarrow> \<not> isCrash ext result app_binary) \<and>
   (crash_type (stack_parse ext (basename app_binary) (output result)) = ''Timeout'' \<or>
    crash_type (stack_parse ext (basename app_binary) (output result)) = ''Out-of-memory''
      \<longrightarrow> \<not> isCrash ext result app_binary) \<and>
   (output result \<noteq> [] \<and>
    crash_state (stack_parse ext (basename app_binary) (output result)) \<noteq> None \<and>
    crash_state (stack_parse ext (basename app_binary) (output result)) \<noteq> Some [] \<and>
    crash_type (stack_parse ext (basename app_binary) (output result)) \<noteq> ''Timeout'' \<and>
    crash_type (stack_parse ext (basename app_binary) (output result)) \<noteq> ''Out-of-memory''
      \<longrightarrow> isCrash ext result app_binary)"
  by (simp add: isCrash_def Let_def)

theorem isCrash_cases_witness:
  "\<not> isCrash demo \<lparr>retcode = 0, output = [], timed_out = True\<rparr> ''/out/fuzzer'' \<and>
   \<not> isCrash demo \<lparr>retcode = 0, output = ''ok'', timed_out = False\<rparr> ''/out/fuzzer'' \<and>
   \<not> isCrash demo \<lparr>retcode = 1, output = ''ALARM'', timed_out = False\<rparr> ''/out/fuzzer'' \<and>
   isCrash demo \<lparr>retcode = 1, output = ''ERROR'', timed_out = False\<rparr> ''/out/fuzzer''"
proof -
  have 1: "\<not> isCrash demo \<lparr>retcode = 0, output = [], timed_out = True\<rparr> ''/out/fuzzer''"
    using isCrash_cases [of "\<lparr>retcode = 0, output = [], timed_out = True\<rparr>" demo "''/out/fuzzer''"]
    by simp
  have 2: "\<not> isCrash demo \<lparr>retcode = 0, output = ''ok'', timed_out = False\<rparr> ''/out/fuzzer''"
    using isCrash_cases [of "\<lparr>retcode = 0, output = ''ok'', timed_out = False\<rparr>" demo "''/out/fuzzer''"]
    by (simp add: demo_def demo_stack_parse_def)
  have 3: "\<not> isCrash demo \<lparr>retcode = 1, output = ''ALARM'', timed_out = False\<rparr> ''/out/fuzzer''"
    using isCrash_cases [of "\<lparr>retcode = 1, output = ''ALARM'', timed_out = False\<rparr>" demo "''/out/fuzzer''"]
    by (simp add: demo_def demo_stack_parse_def)
  have 4: "isCrash demo \<lparr>retcode = 1, output = ''ERROR'', timed_out = False\<rparr> ''/out/fuzzer''"
    using isCrash_cases [of "\<lparr>retcode = 1, output = ''ERROR'', timed_out = False\<rparr>" demo "''/out/fuzzer''"]
    by (simp add: demo_def demo_stack_parse_def)
  show ?thesis using 1 2 3 4 by blast
qed

section \<open>Properties of the crash key\<close>

lemma sort_same_set:
  "distinct xs \<Longrightarrow> distinct ys \<Longrightarrow> set xs = set ys \<Longrightarrow> sort xs = sort (ys :: int list)"
  by (rule sorted_distinct_set_unique) simp_all

text \<open>
  C8. The key of a crash is its trigger IDs sorted ascending, written in decimal and
  joined by \<open>+\<close>; two presentations of the same set of IDs have the same key; and the
  keys of \<open>(3, 1, 2)\<close> and \<open>(1, 2, 3)\<close> are both \<open>1+2+3\<close>.
\<close>

theorem get_crash_key_sorted:
  "get_crash_key (Crash tc xs) = join ''+'' (map str (sort xs)) \<and>
   sorted (sort xs) \<and> set (sort xs) = set xs \<and> length (sort xs) = length xs \<and>
   (distinct xs \<and> distinct ys \<and> set xs = set ys \<longrightarrow>
      get_crash_key (Crash tc xs) = get_crash_key (Crash tc' ys)) \<and>
   get_crash_key (Crash tc [3, 1, 2]) = ''1+2+3'' \<and>
   get_crash_key (Crash tc [1, 2, 3]) = ''1+2+3''"
proof (intro conjI impI)
  show "get_crash_key (Crash tc xs) = join ''+'' (map str (sort xs))"
    by (simp add: get_crash_key_def)
  show "sorted (sort xs)" by simp
  show "set (sort xs) = set xs" by simp
  show "length (sort xs) = length xs" by simp
  show "get_crash_key (Crash tc [3, 1, 2]) = ''1+2+3''"
    by (simp add: get_crash_key_def str_def str_nat.simps digit_char_def)
  show "get_crash_key (Crash tc [1, 2, 3]) = ''1+2+3''"
    by (simp add: get_crash_key_def str_def str_nat.simps digit_char_def)
next
  assume "distinct xs \<and> distinct ys \<and> set xs = set ys"
  then have "sort xs = sort ys" by (simp add: sort_same_set)
  then show "get_crash_key (Crash tc xs) = get_crash_key (Crash tc' ys)"
    by (simp add: get_crash_key_def)
qed

theorem get_crash_key_sorted_witness:
  "get_crash_key (Crash ''a'' [10, -2, 7]) = get_crash_key (Crash ''b'' [7, 10, -2]) \<and>
   get_crash_key (Crash ''a'' [10, -2, 7]) = ''-2+7+10''"
proof -
  have "distinct [10, -2, 7 :: int] \<and> distinct [7, 10, -2 :: int] \<and>
        set [10, -2, 7 :: int] = set [7, 10, -2]"
    by auto
  then have "get_crash_key (Crash ''a'' [10, -2, 7]) = get_crash_key (Crash ''b'' [7, 10, -2])"
    using get_crash_key_sorted
      [where tc = "''a''" and xs = "[10, -2, 7]" and ys = "[7, 10, -2]" and tc' = "''b''"]
    by blast
  moreover have "get_crash_key (Crash ''a'' [10, -2, 7]) = ''-2+7+10''"
    by (simp add: get_crash_key_def str_def str_nat.simps digit_char_def)
  ultimately show ?thesis by blast
qed

section \<open>Properties of the combinatorial minimizer\<close>

subsection \<open>Combinations\<close>

lemma combinations_length_subset:
  "c \<in> set (combinations xs n) \<Longrightarrow> length c = n \<and> set c \<subseteq> set xs"
proof (induction xs n arbitrary: c rule: combinations.induct)
  case (3 x xs n)
  from "3.prems" consider d where "c = x # d" "d \<in> set (combinations xs n)"
    | "c \<in> set (combinations xs (Suc n))"
    by auto
  then show ?case
  proof cases
    case 1
    then show ?thesis using "3.IH"(1) [of d] by auto
  next
    case 2
    then show ?thesis using "3.IH"(2) [of c] by auto
  qed
qed simp_all

lemma combinations_distinct:
  "distinct xs \<Longrightarrow> c \<in> set (combinations xs n) \<Longrightarrow> distinct c"
proof (induction xs n arbitrary: c rule: combinations.induct)
  case (3 x xs n)
  from "3.prems"(2) consider d where "c = x # d" "d \<in> set (combinations xs n)"
    | "c \<in> set (combinations xs (Suc n))"
    by auto
  then show ?case
  proof cases
    case 1
    moreover have "set d \<subseteq> set xs" using 1(2) combinations_length_subset by blast
    ultimately show ?thesis using "3.IH"(1) [of d] "3.prems"(1) by auto
  next
    case 2
    then show ?thesis using "3.IH"(2) [of c] "3.prems"(1) by simp
  qed
qed simp_all

lemma combinations_complete:
  "S \<subseteq> set xs \<Longrightarrow> card S = n \<Longrightarrow> \<exists>c\<in>set (combinations xs n). set c = S"
proof (induction xs n arbitrary: S rule: combinations.induct)
  case (1 xs)
  then have "finite S" using finite_subset by blast
  with 1 show ?case by simp
next
  case (2 n)
  then show ?case by simp
next
  case (3 x xs n)
  have fin: "finite S" using "3.prems"(1) finite_subset by blast
  show ?case
  proof (cases "x \<in> S")
    case True
    have "S - {x} \<subseteq> set xs" using "3.prems"(1) by auto
    moreover have "card (S - {x}) = n" using True fin "3.prems"(2) by simp
    ultimately obtain c where c: "c \<in> set (combinations xs n)" "set c = S - {x}"
      using "3.IH"(1) by blast
    have "x # c \<in> set (combinations (x # xs) (Suc n))" using c(1) by simp
    moreover have "set (x # c) = S" using c(2) True by auto
    ultimately show ?thesis by blast
  next
    case False
    then have "S \<subseteq> set xs" using "3.prems"(1) by auto
    then obtain c where "c \<in> set (combinations xs (Suc n))" "set c = S"
      using "3.IH"(2) "3.prems"(2) by blast
    then show ?thesis by auto
  qed
qed

lemma candidates_sets:
  assumes "distinct ts"
  shows "set ` set (candidates ts) = {S. S \<subseteq> set ts \<and> S \<noteq> {}}"
proof (intro set_eqI iffI)
  fix S assume "S \<in> set ` set (candidates ts)"
  then obtain c n where c: "S = set c" "c \<in> set (combinations ts n)" "1 \<le> n"
    by (auto simp: candidates_def)
  then have "length c = n" "set c \<subseteq> set ts" using combinations_length_subset by blast+
  with c show "S \<in> {S. S \<subseteq> set ts \<and> S \<noteq> {}}" by auto
next
  fix S assume "S \<in> {S. S \<subseteq> set ts \<and> S \<noteq> {}}"
  then have S: "S \<subseteq> set ts" "S \<noteq> {}" by auto
  then have fin: "finite S" using finite_subset by blast
  have "card S \<le> card (set ts)" using S(1) by (simp add: card_mono)
  then have le: "card S \<le> length ts" using assms by (simp add: distinct_card)
  have pos: "1 \<le> card S" using S(2) fin by (simp add: Suc_leI card_gt_0_iff)
  obtain c where "c \<in> set (combinations ts (card S))" "set c = S"
    using combinations_complete [OF S(1) refl] by blast
  moreover have "card S \<in> set [1 ..< length ts + 1]" using le pos by auto
  ultimately have "c \<in> set (candidates ts)"
    unfolding candidates_def set_concat set_map by blast
  then show "S \<in> set ` set (candidates ts)" using \<open>set c = S\<close> by blast
qed

lemma map_length_combinations:
  "map length (combinations xs n) = replicate (length (combinations xs n)) n"
  by (rule replicate_eqI [symmetric, THEN sym]) (auto dest: combinations_length_subset)

lemma sorted_lengths_concat:
  "sorted ns \<Longrightarrow> sorted (map length (concat (map (combinations ts) ns)))"
proof (induction ns)
  case Nil
  show ?case by simp
next
  case (Cons n ns)
  have "\<forall>a\<in>set (combinations ts n). \<forall>b\<in>set (concat (map (combinations ts) ns)). length a \<le> length b"
    using Cons.prems by (auto dest!: combinations_length_subset)
  moreover have "sorted (map length (combinations ts n))"
    by (subst map_length_combinations) simp
  ultimately show ?case
    using Cons by (auto simp: sorted_append)
qed

lemma concat_combinations_ascending:
  assumes "distinct ts" and "sorted ns"
  shows "sorted_wrt (\<lambda>a b. \<not> set b \<subset> set a) (concat (map (combinations ts) ns))"
proof -
  let ?cs = "concat (map (combinations ts) ns)"
  have "sorted (map length ?cs)"
    using assms(2) by (rule sorted_lengths_concat)
  then have len: "sorted_wrt (\<lambda>a b. length a \<le> length b) ?cs"
    by (simp add: sorted_map)
  have dist: "\<forall>c\<in>set ?cs. distinct c"
    using assms(1) by (auto dest: combinations_distinct)
  show ?thesis
  proof (rule sorted_wrt_mono_rel [OF _ len])
    fix a b assume ab: "a \<in> set ?cs" "b \<in> set ?cs" "length a \<le> length b"
    have "distinct a" "distinct b" using dist ab(1,2) by blast+
    then have "card (set a) \<le> card (set b)" using ab(3) by (simp add: distinct_card)
    then show "\<not> set b \<subset> set a"
      using psubset_card_mono [of "set a" "set b"] by auto
  qed
qed

subsection \<open>The loops\<close>

lemma currset_loop_append:
  "currset_loop ext w bin p (xs @ ys) R L =
     (case currset_loop ext w bin p xs R L of
        (R', L', w') \<Rightarrow> currset_loop ext w' bin p ys R' L')"
  by (induction xs arbitrary: w R L) (auto split: prod.splits)

lemma size_loop_concat:
  "size_loop ext w bin p ts ns R L =
     currset_loop ext w bin p (concat (map (combinations ts) ns)) R L"
  by (induction ns arbitrary: w R L) (auto simp: currset_loop_append split: prod.splits)

lemma currset_loop_rule_aux:
  assumes skip: "\<And>pre c post R L. cs = pre @ c # post \<Longrightarrow> I pre R L \<Longrightarrow>
            \<exists>k\<in>set R. set k \<subseteq> set c \<Longrightarrow> I (pre @ [c]) R L"
      and exec: "\<And>pre c post R L w0. cs = pre @ c # post \<Longrightarrow> I pre R L \<Longrightarrow>
            \<forall>k\<in>set R. \<not> set k \<subseteq> set c \<Longrightarrow>
            I (pre @ [c]) (if verdict ext bin p w0 c then R @ [c] else R)
              (L @ [(Some c, verdict ext bin p w0 c)])"
  shows "cs = pre @ rest \<Longrightarrow> I pre R L \<Longrightarrow>
         currset_loop ext w bin p rest R L = (R', L', w') \<Longrightarrow> I cs R' L'"
proof (induction rest arbitrary: pre R L w)
  case Nil
  then show ?case by simp
next
  case (Cons c rest)
  have split: "cs = (pre @ [c]) @ rest" using Cons.prems(1) by simp
  show ?case
  proof (cases "\<exists>k\<in>set R. set k \<subseteq> set c")
    case True
    then have "I (pre @ [c]) R L" using skip Cons.prems(1,2) by blast
    moreover have "currset_loop ext w bin p rest R L = (R', L', w')"
      using Cons.prems(3) True by (simp add: list_ex_iff)
    ultimately show ?thesis using Cons.IH [OF split] by blast
  next
    case False
    obtain r w1 where ex: "execute ext w (trial_call ext bin p (Some c)) = (r, w1)"
      by (cases "execute ext w (trial_call ext bin p (Some c))") auto
    then have v: "verdict ext bin p w c = isCrash ext r bin" by (simp add: verdict_def)
    have step: "I (pre @ [c]) (if verdict ext bin p w c then R @ [c] else R)
                  (L @ [(Some c, verdict ext bin p w c)])"
      using exec [OF Cons.prems(1,2)] False by blast
    have run: "currset_loop ext w1 bin p rest (if verdict ext bin p w c then R @ [c] else R)
                 (L @ [(Some c, verdict ext bin p w c)]) = (R', L', w')"
      using Cons.prems(3) False ex v by (auto simp: list_ex_iff)
    show ?thesis using Cons.IH [OF split step run] .
  qed
qed

lemma currset_loop_rule:
  assumes "currset_loop ext w bin p cs R L = (R', L', w')"
      and "I [] R L"
      and "\<And>pre c post R L. cs = pre @ c # post \<Longrightarrow> I pre R L \<Longrightarrow>
            \<exists>k\<in>set R. set k \<subseteq> set c \<Longrightarrow> I (pre @ [c]) R L"
      and "\<And>pre c post R L w0. cs = pre @ c # post \<Longrightarrow> I pre R L \<Longrightarrow>
            \<forall>k\<in>set R. \<not> set k \<subseteq> set c \<Longrightarrow>
            I (pre @ [c]) (if verdict ext bin p w0 c then R @ [c] else R)
              (L @ [(Some c, verdict ext bin p w0 c)])"
  shows "I cs R' L'"
  using currset_loop_rule_aux [where I = I and cs = cs and pre = "[]" and rest = cs, OF assms(3,4) _ assms(2,1)]
  by simp

subsection \<open>The trace of runs and the crash sets\<close>

lemma confirmed_append:
  "confirmed (L @ [(Some c, b)]) = (if b then confirmed L @ [c] else confirmed L)"
  by (simp add: confirmed_def)

lemma in_confirmed: "(Some a, True) \<in> set L \<Longrightarrow> a \<in> set (confirmed L)"
  by (force simp: confirmed_def)

lemma currset_loop_log:
  assumes "currset_loop ext w bin p cs R L = (R', L', w')"
      and "R = confirmed L" and "sorted_wrt pruned_before L"
  shows "R' = confirmed L' \<and> sorted_wrt pruned_before L'"
proof (rule currset_loop_rule
    [where I = "\<lambda>pre R L. R = confirmed L \<and> sorted_wrt pruned_before L", OF assms(1)])
  show "R = confirmed L \<and> sorted_wrt pruned_before L" using assms by simp
next
  fix pre c post R L
  assume "R = confirmed L \<and> sorted_wrt pruned_before L"
  then show "R = confirmed L \<and> sorted_wrt pruned_before L" .
next
  fix pre c post R L and w0 :: 'a
  assume inv: "R = confirmed L \<and> sorted_wrt pruned_before L"
     and np: "\<forall>k\<in>set R. \<not> set k \<subseteq> set c"
  let ?b = "verdict ext bin p w0 c"
  have "\<forall>e\<in>set L. pruned_before e (Some c, ?b)"
    using inv np in_confirmed by (fastforce simp: pruned_before_def)
  then have "sorted_wrt pruned_before (L @ [(Some c, ?b)])"
    using inv by (simp add: sorted_wrt_append)
  moreover have "(if ?b then R @ [c] else R) = confirmed (L @ [(Some c, ?b)])"
    using inv by (simp add: confirmed_append)
  ultimately show "(if ?b then R @ [c] else R) = confirmed (L @ [(Some c, ?b)]) \<and>
        sorted_wrt pruned_before (L @ [(Some c, ?b)])" by simp
qed

lemma currset_loop_incomparable:
  assumes run: "currset_loop ext w bin p cs [] L = (R', L', w')"
      and asc: "sorted_wrt (\<lambda>a b. \<not> set b \<subset> set a) cs"
  shows "sorted_wrt incomparable R'"
proof -
  have "set R' \<subseteq> set cs \<and> sorted_wrt incomparable R'"
  proof (rule currset_loop_rule
      [where I = "\<lambda>pre R L. set R \<subseteq> set pre \<and> sorted_wrt incomparable R", OF run])
    show "set [] \<subseteq> set ([] :: int list list) \<and> sorted_wrt incomparable []" by simp
  next
    fix pre c post R and L :: "trial list"
    assume "set R \<subseteq> set pre \<and> sorted_wrt incomparable R"
    then show "set R \<subseteq> set (pre @ [c]) \<and> sorted_wrt incomparable R" by auto
  next
    fix pre c post R and L :: "trial list" and w0 :: 'a
    assume cs: "cs = pre @ c # post"
       and inv: "set R \<subseteq> set pre \<and> sorted_wrt incomparable R"
       and np: "\<forall>k\<in>set R. \<not> set k \<subseteq> set c"
    have "\<forall>a\<in>set pre. \<not> set c \<subset> set a"
      using asc unfolding cs by (simp add: sorted_wrt_append)
    then have "\<forall>k\<in>set R. incomparable k c"
      using inv np unfolding incomparable_def by blast
    then have "sorted_wrt incomparable (R @ [c])"
      using inv by (simp add: sorted_wrt_append)
    then show "set (if verdict ext bin p w0 c then R @ [c] else R) \<subseteq> set (pre @ [c]) \<and>
        sorted_wrt incomparable (if verdict ext bin p w0 c then R @ [c] else R)"
      using inv by auto
  qed
  then show ?thesis by simp
qed

subsection \<open>Minimal crash sets\<close>

lemma minimal_inI:
  "S \<in> D \<Longrightarrow> crash S \<Longrightarrow> (\<And>S'. S' \<in> D \<Longrightarrow> crash S' \<Longrightarrow> \<not> S' \<subset> S) \<Longrightarrow> S \<in> minimal_in crash D"
  unfolding minimal_in_def by simp

lemma minimal_inD:
  assumes "S \<in> minimal_in crash D"
  shows "S \<in> D" and "crash S" and "\<And>S'. S' \<in> D \<Longrightarrow> crash S' \<Longrightarrow> \<not> S' \<subset> S"
  using assms unfolding minimal_in_def by simp_all

lemma coversD: "covers crash R D \<Longrightarrow> S \<in> D \<Longrightarrow> crash S \<Longrightarrow> \<exists>k\<in>set R. set k \<subseteq> S"
  unfolding covers_def by simp

lemma covers_insert:
  "covers crash R D \<Longrightarrow> (crash S \<Longrightarrow> \<exists>k\<in>set R. set k \<subseteq> S) \<Longrightarrow> covers crash R (insert S D)"
  unfolding covers_def by simp

lemma minimal_in_old:
  assumes "\<forall>S\<in>D. \<not> C \<subset> S" and "S \<in> minimal_in crash D"
  shows "S \<in> minimal_in crash (insert C D)"
proof (rule minimal_inI)
  show "S \<in> insert C D" using minimal_inD(1) [OF assms(2)] by simp
  show "crash S" using minimal_inD(2) [OF assms(2)] .
  fix S' assume "S' \<in> insert C D" "crash S'"
  then consider "S' = C" | "S' \<in> D" by auto
  then show "\<not> S' \<subset> S"
  proof cases
    case 1
    then show ?thesis using assms(1) minimal_inD(1) [OF assms(2)] by simp
  next
    case 2
    then show ?thesis using minimal_inD(3) [OF assms(2)] \<open>crash S'\<close> by simp
  qed
qed

lemma minimal_in_shrink:
  assumes "S \<in> minimal_in crash (insert C D)" and "S \<in> D"
  shows "S \<in> minimal_in crash D"
proof (rule minimal_inI)
  show "S \<in> D" by fact
  show "crash S" using minimal_inD(2) [OF assms(1)] .
  fix S' assume "S' \<in> D" "crash S'"
  then show "\<not> S' \<subset> S" using minimal_inD(3) [OF assms(1), of S'] by simp
qed

lemma minimal_step_skip:
  assumes R: "set ` set R = minimal_in crash D" and cov: "covers crash R D"
      and asc: "\<forall>S\<in>D. \<not> set c \<subset> S" and sk: "\<exists>k\<in>set R. set k \<subseteq> set c"
  shows "set ` set R = minimal_in crash (insert (set c) D) \<and> covers crash R (insert (set c) D)"
proof
  obtain k where k: "k \<in> set R" "set k \<subseteq> set c" using sk by blast
  then have "set k \<in> set ` set R" by simp
  then have kmin: "set k \<in> minimal_in crash D" using R by simp
  show "covers crash R (insert (set c) D)"
    using cov sk by (rule covers_insert)
  show "set ` set R = minimal_in crash (insert (set c) D)"
  proof (intro set_eqI iffI)
    fix S assume "S \<in> set ` set R"
    then have "S \<in> minimal_in crash D" using R by simp
    then show "S \<in> minimal_in crash (insert (set c) D)" using asc by (simp add: minimal_in_old)
  next
    fix S assume S: "S \<in> minimal_in crash (insert (set c) D)"
    show "S \<in> set ` set R"
    proof (cases "S \<in> D")
      case True
      then have "S \<in> minimal_in crash D" using S by (rule minimal_in_shrink [rotated])
      then show ?thesis using R by simp
    next
      case False
      then have Sc: "S = set c" using minimal_inD(1) [OF S] by simp
      have "\<not> set k \<subset> S"
        using minimal_inD(3) [OF S, of "set k"] minimal_inD(1,2) [OF kmin] by simp
      then have "set k = S" using k(2) Sc by (simp add: psubset_eq)
      then show ?thesis using \<open>set k \<in> set ` set R\<close> by simp
    qed
  qed
qed

lemma minimal_step_add:
  assumes R: "set ` set R = minimal_in crash D" and cov: "covers crash R D"
      and asc: "\<forall>S\<in>D. \<not> set c \<subset> S" and np: "\<forall>k\<in>set R. \<not> set k \<subseteq> set c"
      and cr: "crash (set c)"
  shows "set ` set (R @ [c]) = minimal_in crash (insert (set c) D) \<and>
         covers crash (R @ [c]) (insert (set c) D)"
proof
  show "covers crash (R @ [c]) (insert (set c) D)"
    using cov unfolding covers_def by auto
  have cmin: "set c \<in> minimal_in crash (insert (set c) D)"
  proof (rule minimal_inI)
    show "set c \<in> insert (set c) D" by simp
    show "crash (set c)" by fact
    fix S' assume S': "S' \<in> insert (set c) D" "crash S'"
    show "\<not> S' \<subset> set c"
    proof
      assume lt: "S' \<subset> set c"
      then have "S' \<in> D" using S'(1) by auto
      then obtain k where "k \<in> set R" "set k \<subseteq> S'" using coversD [OF cov _ S'(2)] by blast
      then have "set k \<subseteq> set c" using lt by (meson psubset_imp_subset subset_trans)
      then show False using np \<open>k \<in> set R\<close> by simp
    qed
  qed
  show "set ` set (R @ [c]) = minimal_in crash (insert (set c) D)"
  proof (intro set_eqI iffI)
    fix S assume "S \<in> set ` set (R @ [c])"
    then consider "S = set c" | "S \<in> set ` set R" by auto
    then show "S \<in> minimal_in crash (insert (set c) D)"
    proof cases
      case 1
      then show ?thesis using cmin by simp
    next
      case 2
      then have "S \<in> minimal_in crash D" using R by simp
      then show ?thesis using asc by (simp add: minimal_in_old)
    qed
  next
    fix S assume S: "S \<in> minimal_in crash (insert (set c) D)"
    show "S \<in> set ` set (R @ [c])"
    proof (cases "S = set c")
      case True
      then show ?thesis by simp
    next
      case False
      then have "S \<in> D" using minimal_inD(1) [OF S] by simp
      then have "S \<in> minimal_in crash D" using S by (rule minimal_in_shrink [rotated])
      then have "S \<in> set ` set R" using R by simp
      then show ?thesis by auto
    qed
  qed
qed

lemma minimal_step_pass:
  assumes R: "set ` set R = minimal_in crash D" and cov: "covers crash R D"
      and asc: "\<forall>S\<in>D. \<not> set c \<subset> S" and ncr: "\<not> crash (set c)"
  shows "set ` set R = minimal_in crash (insert (set c) D) \<and> covers crash R (insert (set c) D)"
proof
  show "covers crash R (insert (set c) D)"
    using cov ncr unfolding covers_def by simp
  show "set ` set R = minimal_in crash (insert (set c) D)"
  proof (intro set_eqI iffI)
    fix S assume "S \<in> set ` set R"
    then have "S \<in> minimal_in crash D" using R by simp
    then show "S \<in> minimal_in crash (insert (set c) D)" using asc by (simp add: minimal_in_old)
  next
    fix S assume S: "S \<in> minimal_in crash (insert (set c) D)"
    have "S \<noteq> set c" using minimal_inD(2) [OF S] ncr by auto
    then have "S \<in> D" using minimal_inD(1) [OF S] by simp
    then have "S \<in> minimal_in crash D" using S by (rule minimal_in_shrink [rotated])
    then show "S \<in> set ` set R" using R by simp
  qed
qed

lemma currset_loop_minimal:
  assumes run: "currset_loop ext w bin p cs [] L = (R', L', w')"
      and asc: "sorted_wrt (\<lambda>a b. \<not> set b \<subset> set a) cs"
      and det: "\<forall>c\<in>set cs. \<forall>w0. verdict ext bin p w0 c = crash (set c)"
  shows "set ` set R' = minimal_in crash (set ` set cs)"
proof -
  let ?I = "\<lambda>pre R (L :: trial list).
      set ` set R = minimal_in crash (set ` set pre) \<and> covers crash R (set ` set pre)"
  have "?I cs R' L'"
  proof (rule currset_loop_rule [where I = ?I, OF run])
    show "?I [] [] L" by (simp add: minimal_in_def covers_def)
  next
    fix pre c post R and L :: "trial list"
    assume cs: "cs = pre @ c # post" and inv: "?I pre R L"
       and sk: "\<exists>k\<in>set R. set k \<subseteq> set c"
    have "\<forall>S\<in>set ` set pre. \<not> set c \<subset> S"
      using asc unfolding cs by (auto simp: sorted_wrt_append)
    then show "?I (pre @ [c]) R L"
      using minimal_step_skip [of R crash "set ` set pre" c] inv sk by simp
  next
    fix pre c post R and L :: "trial list" and w0 :: 'a
    assume cs: "cs = pre @ c # post" and inv: "?I pre R L"
       and np: "\<forall>k\<in>set R. \<not> set k \<subseteq> set c"
    have lt: "\<forall>S\<in>set ` set pre. \<not> set c \<subset> S"
      using asc unfolding cs by (auto simp: sorted_wrt_append)
    have v: "verdict ext bin p w0 c = crash (set c)" using det cs by simp
    show "?I (pre @ [c]) (if verdict ext bin p w0 c then R @ [c] else R)
            (L @ [(Some c, verdict ext bin p w0 c)])"
    proof (cases "crash (set c)")
      case True
      then show ?thesis
        using minimal_step_add [of R crash "set ` set pre" c] inv np lt v by simp
    next
      case False
      then show ?thesis
        using minimal_step_pass [of R crash "set ` set pre" c] inv lt v by simp
    qed
  qed
  then show ?thesis by simp
qed

subsection \<open>The runs of \<open>process_crash\<close>\<close>

lemma sorted_wrt_all: "(\<And>x y. x \<in> set xs \<Longrightarrow> y \<in> set xs \<Longrightarrow> P x y) \<Longrightarrow> sorted_wrt P xs"
  by (induction xs) auto

text \<open>
  \<open>process_crash\<close> either returns no crash set after at most the baseline run, or raises
  after the baseline run, or runs the two loops over the parsed triggers.
\<close>

lemma process_crash_cases:
  assumes "process_crash ext w bin p d = (res, log, w')"
  shows "(res = Inr [] \<and> (\<forall>e\<in>set log. fst e = None)) \<or>
         (res = Inl ValueError \<and> log = [(None, True)]) \<or>
         (\<exists>r w1 T R.
            execute ext w (trial_call ext bin p None) = (r, w1) \<and>
            parseFixReverterLog (output r) = Inr T \<and> card T \<noteq> 0 \<and>
            currset_loop ext w1 bin p
              (concat (map (combinations (set_iter ext T)) [1 ..< card T + 1]))
              [] [(None, True)] = (R, log, w') \<and>
            res = Inr R)"
proof -
  obtain r w1 where ex: "execute ext w (trial_call ext bin p None) = (r, w1)"
    by (cases "execute ext w (trial_call ext bin p None)") auto
  show ?thesis
  proof (cases "prefix ''oom-'' (basename p) \<or> prefix ''timeout-'' (basename p)")
    case True
    then show ?thesis using assms by (auto simp: process_crash_def Let_def)
  next
    case nf: False
    show ?thesis
    proof (cases "isCrash ext r bin")
      case False
      then show ?thesis using assms nf ex by (auto simp: process_crash_def Let_def)
    next
      case cr: True
      show ?thesis
      proof (cases "parseFixReverterLog (output r)")
        case (Inl e)
        then show ?thesis
          using assms nf ex cr by (auto simp: process_crash_def Let_def error_is_ValueError)
      next
        case (Inr T)
        show ?thesis
        proof (cases "card T = 0")
          case True
          then show ?thesis using assms nf ex cr Inr by (auto simp: process_crash_def Let_def)
        next
          case False
          obtain R L w2 where loop: "currset_loop ext w1 bin p
              (concat (map (combinations (set_iter ext T)) [1 ..< card T + 1]))
              [] [(None, True)] = (R, L, w2)"
            by (metis prod_cases3)
          have "process_crash ext w bin p d = (Inr R, L, w2)"
            using nf ex cr Inr False loop
            by (simp add: process_crash_def Let_def size_loop_concat)
          then have "res = Inr R" "log = L" "w' = w2" using assms by simp_all
          then show ?thesis using ex Inr False loop by blast
        qed
      qed
    qed
  qed
qed

text \<open>
  C4. For a testcase that is run at all (its file name starts with neither \<open>oom-\<close> nor
  \<open>timeout-\<close>): when the baseline run is not classified as a crash, or the parsed
  triggered set is empty, \<open>process_crash\<close> returns no crash set and the baseline run is
  its only run.
\<close>

theorem no_crash_no_trials:
  assumes "\<not> prefix ''oom-'' (basename p)" and "\<not> prefix ''timeout-'' (basename p)"
      and "execute ext w (trial_call ext bin p None) = (r, w1)"
      and "\<not> isCrash ext r bin \<or> parseFixReverterLog (output r) = Inr {}"
  shows "process_crash ext w bin p d = (Inr [], [(None, isCrash ext r bin)], w1)"
  using assms by (auto simp: process_crash_def Let_def)

theorem no_crash_no_trials_witness:
  "process_crash demo 0 ''/out/fuzzer'' ''crashes/benign'' ''crashes''
     = (Inr [], [(None, False)], 1) \<and>
   process_crash demo 0 ''/out/fuzzer'' ''crashes/plain'' ''crashes''
     = (Inr [], [(None, True)], 1)"
proof -
  let ?rb = "\<lparr>retcode = 0, output = ''triggered bug index 1\<newline>triggered bug index 2\<newline>ok'',
              timed_out = False\<rparr>"
  let ?rp = "\<lparr>retcode = 1, output = ''ERROR'', timed_out = False\<rparr>"
  have eb: "execute demo 0 (trial_call demo ''/out/fuzzer'' ''crashes/benign'' None) = (?rb, 1)"
    by (simp add: demo_simps)
  have nb: "\<not> isCrash demo ?rb ''/out/fuzzer''"
    by (simp add: demo_simps)
  have ep: "execute demo 0 (trial_call demo ''/out/fuzzer'' ''crashes/plain'' None) = (?rp, 1)"
    by (simp add: demo_simps)
  have pp: "parseFixReverterLog (output ?rp) = Inr {}"
    by (simp add: parse_simps)
  have cp: "isCrash demo ?rp ''/out/fuzzer''"
    by (simp add: demo_simps)
  have fb: "\<not> prefix ''oom-'' (basename ''crashes/benign'')"
           "\<not> prefix ''timeout-'' (basename ''crashes/benign'')"
    by (simp_all add: basename_def split_def)
  have fp: "\<not> prefix ''oom-'' (basename ''crashes/plain'')"
           "\<not> prefix ''timeout-'' (basename ''crashes/plain'')"
    by (simp_all add: basename_def split_def)
  have 1: "process_crash demo 0 ''/out/fuzzer'' ''crashes/benign'' ''crashes''
     = (Inr [], [(None, False)], 1)"
    using no_crash_no_trials [OF fb eb, of "''crashes''"] nb by simp
  have 2: "process_crash demo 0 ''/out/fuzzer'' ''crashes/plain'' ''crashes''
     = (Inr [], [(None, True)], 1)"
    using no_crash_no_trials [OF fp ep, of "''crashes''"] pp cp by simp
  show ?thesis using 1 2 by blast
qed

text \<open>
  C3. In the trace of one minimization, no run is made for a candidate that is a
  superset of a crash set confirmed earlier in the trace; and the crash sets returned are
  exactly the candidates whose runs were classified as crashes.
\<close>

theorem superset_never_run:
  assumes "process_crash ext w bin p d = (res, log, w')"
  shows "(\<forall>crashes. res = Inr crashes \<longrightarrow> crashes = confirmed log) \<and>
         (\<forall>i j a b v. i < j \<and> j < length log \<and>
            log ! i = (Some a, True) \<and> log ! j = (Some b, v) \<longrightarrow> \<not> set a \<subseteq> set b)"
proof -
  have "(\<forall>crashes. res = Inr crashes \<longrightarrow> crashes = confirmed log) \<and> sorted_wrt pruned_before log"
    using process_crash_cases [OF assms]
  proof (elim disjE exE conjE)
    assume none: "res = Inr []" "\<forall>e\<in>set log. fst e = None"
    have "sorted_wrt pruned_before log"
      by (rule sorted_wrt_all) (use none(2) in \<open>simp add: pruned_before_def\<close>)
    moreover have "filter (\<lambda>e. fst e \<noteq> None \<and> snd e) log = []"
      using none(2) by (simp add: filter_empty_conv)
    ultimately show ?thesis using none(1) by (simp add: confirmed_def)
  next
    assume "res = Inl ValueError" "log = [(None, True)]"
    then show ?thesis by simp
  next
    fix r w1 T R
    assume loop: "currset_loop ext w1 bin p
              (concat (map (combinations (set_iter ext T)) [1 ..< card T + 1]))
              [] [(None, True)] = (R, log, w')"
       and res: "res = Inr R"
    have "R = confirmed log \<and> sorted_wrt pruned_before log"
      by (rule currset_loop_log [OF loop]) (simp_all add: confirmed_def)
    then show ?thesis using res by simp
  qed
  then show ?thesis
    by (auto simp: sorted_wrt_iff_nth_less pruned_before_def)
qed

theorem superset_never_run_witness:
  "process_crash demo 0 ''/out/fuzzer'' ''crashes/a'' ''crashes''
     = (Inr [[1]], [(None, True), (Some [1], True), (Some [2], False)], 3) \<and>
   [[1]] = confirmed [(None, True), (Some [1], True), (Some [2], False)] \<and>
   \<not> set [1 :: int] \<subseteq> set [2]"
proof -
  have run: "process_crash demo 0 ''/out/fuzzer'' ''crashes/a'' ''crashes''
     = (Inr [[1]], [(None, True), (Some [1], True), (Some [2], False)], 3)"
    by (simp add: demo_simps)
  note fact = superset_never_run [OF run]
  have "[[1]] = confirmed [(None, True), (Some [1], True), (Some [2], False)]"
    using fact by blast
  moreover have "\<not> set [1 :: int] \<subseteq> set [2]"
    using fact [THEN conjunct2, rule_format, of 1 2 "[1]" "[2]" False] by simp
  ultimately show ?thesis using run by blast
qed

text \<open>
  C2. The crash sets that \<open>process_crash\<close> returns for a testcase are pairwise
  incomparable: of two entries of the list, neither is a superset of the other. The
  iteration of a set yields each element once.
\<close>

theorem crash_sets_incomparable:
  assumes "process_crash ext w bin p d = (Inr crashes, log, w')"
      and "\<forall>T. finite T \<longrightarrow> distinct (set_iter ext T)"
  shows "(\<forall>i j. i < j \<and> j < length crashes \<longrightarrow>
            \<not> set (crashes ! i) \<subseteq> set (crashes ! j) \<and>
            \<not> set (crashes ! j) \<subseteq> set (crashes ! i)) \<and>
         (\<forall>S1\<in>set crashes. \<forall>S2\<in>set crashes. S1 \<noteq> S2 \<longrightarrow>
            \<not> set S1 \<subseteq> set S2 \<and> \<not> set S2 \<subseteq> set S1)"
proof -
  have sw: "sorted_wrt incomparable crashes"
    using process_crash_cases [OF assms(1)]
  proof (elim disjE exE conjE)
    assume "Inr crashes = (Inr [] :: error + int list list)"
    then show ?thesis by simp
  next
    assume "Inr crashes = (Inl ValueError :: error + int list list)"
    then show ?thesis by simp
  next
    fix r w1 T R
    assume loop: "currset_loop ext w1 bin p
              (concat (map (combinations (set_iter ext T)) [1 ..< card T + 1]))
              [] [(None, True)] = (R, log, w')"
       and res: "Inr crashes = (Inr R :: error + int list list)" and card: "card T \<noteq> 0"
    have "finite T" using card by (rule card_ge_0_finite [OF neq0_conv [THEN iffD1]])
    then have "distinct (set_iter ext T)" using assms(2) by simp
    then have "sorted_wrt (\<lambda>a b. \<not> set b \<subset> set a)
        (concat (map (combinations (set_iter ext T)) [1 ..< card T + 1]))"
      by (rule concat_combinations_ascending) (rule sorted_upt)
    then have "sorted_wrt incomparable R" by (rule currset_loop_incomparable [OF loop])
    then show ?thesis using res by simp
  qed
  have idx: "\<forall>i j. i < j \<and> j < length crashes \<longrightarrow>
            \<not> set (crashes ! i) \<subseteq> set (crashes ! j) \<and>
            \<not> set (crashes ! j) \<subseteq> set (crashes ! i)"
    using sw by (auto simp: sorted_wrt_iff_nth_less incomparable_def)
  have "\<forall>S1\<in>set crashes. \<forall>S2\<in>set crashes. S1 \<noteq> S2 \<longrightarrow>
            \<not> set S1 \<subseteq> set S2 \<and> \<not> set S2 \<subseteq> set S1"
  proof (intro ballI impI)
    fix S1 S2 assume "S1 \<in> set crashes" "S2 \<in> set crashes" "S1 \<noteq> S2"
    then obtain i j where ij: "i < length crashes" "j < length crashes"
        "crashes ! i = S1" "crashes ! j = S2"
      by (metis in_set_conv_nth)
    then have "i \<noteq> j" using \<open>S1 \<noteq> S2\<close> by auto
    then consider "i < j" | "j < i" by linarith
    then show "\<not> set S1 \<subseteq> set S2 \<and> \<not> set S2 \<subseteq> set S1"
    proof cases
      case 1
      then show ?thesis using idx ij by blast
    next
      case 2
      then show ?thesis using idx ij by blast
    qed
  qed
  then show ?thesis using idx by blast
qed

theorem crash_sets_incomparable_witness:
  "process_crash demo 0 ''/out/fuzzer'' ''crashes/either'' ''crashes''
     = (Inr [[1], [2]], [(None, True), (Some [1], True), (Some [2], True)], 3) \<and>
   \<not> set [1 :: int] \<subseteq> set [2] \<and> \<not> set [2 :: int] \<subseteq> set [1]"
proof -
  have run: "process_crash demo 0 ''/out/fuzzer'' ''crashes/either'' ''crashes''
     = (Inr [[1], [2]], [(None, True), (Some [1], True), (Some [2], True)], 3)"
    by (simp add: demo_simps)
  have it: "\<forall>T. finite T \<longrightarrow> distinct (set_iter demo T)"
    by (simp add: demo_def)
  have "\<not> set [1 :: int] \<subseteq> set [2] \<and> \<not> set [2 :: int] \<subseteq> set [1]"
    using crash_sets_incomparable [OF run it, THEN conjunct1, rule_format, of 0 1] by simp
  then show ?thesis using run by blast
qed

lemma nonempty_minimal_sets:
  "minimal_in crash {S. S \<subseteq> T \<and> S \<noteq> {}} =
     {S. S \<subseteq> T \<and> S \<noteq> {} \<and> crash S \<and> (\<forall>S'. S' \<noteq> {} \<and> S' \<subset> S \<longrightarrow> \<not> crash S')}"
proof (intro set_eqI iffI)
  fix S assume S: "S \<in> minimal_in crash {S. S \<subseteq> T \<and> S \<noteq> {}}"
  have in_D: "S \<subseteq> T" "S \<noteq> {}" using minimal_inD(1) [OF S] by simp_all
  have "\<forall>S'. S' \<noteq> {} \<and> S' \<subset> S \<longrightarrow> \<not> crash S'"
  proof (intro allI impI)
    fix S' assume S': "S' \<noteq> {} \<and> S' \<subset> S"
    then have "S' \<in> {S. S \<subseteq> T \<and> S \<noteq> {}}" using in_D(1) by auto
    then show "\<not> crash S'" using minimal_inD(3) [OF S, of S'] S' by blast
  qed
  then show "S \<in> {S. S \<subseteq> T \<and> S \<noteq> {} \<and> crash S \<and>
      (\<forall>S'. S' \<noteq> {} \<and> S' \<subset> S \<longrightarrow> \<not> crash S')}"
    using in_D minimal_inD(2) [OF S] by simp
next
  fix S assume "S \<in> {S. S \<subseteq> T \<and> S \<noteq> {} \<and> crash S \<and>
      (\<forall>S'. S' \<noteq> {} \<and> S' \<subset> S \<longrightarrow> \<not> crash S')}"
  then have S: "S \<subseteq> T" "S \<noteq> {}" "crash S" "\<forall>S'. S' \<noteq> {} \<and> S' \<subset> S \<longrightarrow> \<not> crash S'"
    by simp_all
  show "S \<in> minimal_in crash {S. S \<subseteq> T \<and> S \<noteq> {}}"
  proof (rule minimal_inI)
    show "S \<in> {S. S \<subseteq> T \<and> S \<noteq> {}}" using S(1,2) by simp
    show "crash S" by fact
    fix S' assume "S' \<in> {S. S \<subseteq> T \<and> S \<noteq> {}}" "crash S'"
    then show "\<not> S' \<subset> S" using S(4) by blast
  qed
qed

text \<open>
  C1, as the code has it. For a testcase that is run (its file name starts with neither
  \<open>oom-\<close> nor \<open>timeout-\<close>), whose baseline run is classified as a crash with a non-empty
  triggered set, and with a classifier whose verdict on every candidate is a function
  \<open>crash\<close> of the candidate's set of IDs: \<open>process_crash\<close> returns, and the sets it returns
  are exactly the non-empty subsets of the triggered set that crash and have no non-empty
  crashing proper subset. The empty subset is never run.
\<close>

theorem minimizer_minimal_nonempty:
  assumes nf: "\<not> prefix ''oom-'' (basename p)" "\<not> prefix ''timeout-'' (basename p)"
      and ex: "execute ext w (trial_call ext bin p None) = (r, w1)"
      and cr: "isCrash ext r bin"
      and parse: "parseFixReverterLog (output r) = Inr T" and ne: "T \<noteq> {}"
      and iter: "distinct (set_iter ext T)" "set (set_iter ext T) = T"
      and det: "\<forall>c\<in>set (candidates (set_iter ext T)). \<forall>w0. verdict ext bin p w0 c = crash (set c)"
  shows "\<exists>crashes log w'.
           process_crash ext w bin p d = (Inr crashes, log, w') \<and>
           set ` set crashes =
             {S. S \<subseteq> T \<and> S \<noteq> {} \<and> crash S \<and> (\<forall>S'. S' \<noteq> {} \<and> S' \<subset> S \<longrightarrow> \<not> crash S')}"
proof -
  let ?ts = "set_iter ext T"
  have fin: "finite T" using iter(2) by (metis List.finite_set)
  have len: "card T = length ?ts" using iter by (metis distinct_card)
  have pos: "card T \<noteq> 0" using fin ne by simp
  have cands: "concat (map (combinations ?ts) [1 ..< card T + 1]) = candidates ?ts"
    by (simp add: candidates_def len)
  obtain R L w2 where loop:
      "currset_loop ext w1 bin p (candidates ?ts) [] [(None, True)] = (R, L, w2)"
    by (metis prod_cases3)
  have run: "process_crash ext w bin p d = (Inr R, L, w2)"
    using nf ex cr parse pos loop cands
    by (simp add: process_crash_def Let_def size_loop_concat)
  have asc: "sorted_wrt (\<lambda>a b. \<not> set b \<subset> set a) (candidates ?ts)"
    unfolding cands [symmetric]
    using iter(1) by (rule concat_combinations_ascending) (rule sorted_upt)
  have "set ` set R = minimal_in crash (set ` set (candidates ?ts))"
    using loop asc det by (rule currset_loop_minimal)
  also have "set ` set (candidates ?ts) = {S. S \<subseteq> T \<and> S \<noteq> {}}"
    using candidates_sets [OF iter(1)] iter(2) by simp
  finally have "set ` set R =
      {S. S \<subseteq> T \<and> S \<noteq> {} \<and> crash S \<and> (\<forall>S'. S' \<noteq> {} \<and> S' \<subset> S \<longrightarrow> \<not> crash S')}"
    by (simp add: nonempty_minimal_sets)
  then show ?thesis using run by blast
qed

lemma demo_sorted_12: "sorted_list_of_set {1, 2 :: int} = [1, 2]"
proof -
  have "sorted_list_of_set (set [1, 2 :: int]) = [1, 2]"
    by (simp only: sorted_list_of_set_sort_remdups) simp
  then show ?thesis by simp
qed

theorem minimizer_minimal_nonempty_witness:
  "process_crash demo 0 ''/out/fuzzer'' ''crashes/a'' ''crashes''
     = (Inr [[1]], [(None, True), (Some [1], True), (Some [2], False)], 3) \<and>
   set ` set [[1 :: int]] =
     {S. S \<subseteq> {1, 2} \<and> S \<noteq> {} \<and> 1 \<in> S \<and> (\<forall>S'. S' \<noteq> {} \<and> S' \<subset> S \<longrightarrow> 1 \<notin> S')}"
proof -
  let ?r = "\<lparr>retcode = 1,
             output = ''triggered bug index 1\<newline>triggered bug index 2\<newline>ERROR'',
             timed_out = False\<rparr>"
  have run: "process_crash demo 0 ''/out/fuzzer'' ''crashes/a'' ''crashes''
     = (Inr [[1]], [(None, True), (Some [1], True), (Some [2], False)], 3)"
    by (simp add: demo_simps)
  have nf: "\<not> prefix ''oom-'' (basename ''crashes/a'')"
           "\<not> prefix ''timeout-'' (basename ''crashes/a'')"
    by (simp_all add: basename_def split_def)
  have ex: "execute demo 0 (trial_call demo ''/out/fuzzer'' ''crashes/a'' None) = (?r, 1)"
    by (simp add: demo_simps)
  have cr: "isCrash demo ?r ''/out/fuzzer''"
    by (simp add: demo_simps)
  have parse: "parseFixReverterLog (output ?r) = Inr {1, 2}"
    by (auto simp: parse_simps)
  have ne: "{1, 2 :: int} \<noteq> {}" by simp
  have it: "set_iter demo {1, 2} = [1, 2]"
    by (simp add: demo_def demo_sorted_12)
  have iter: "distinct (set_iter demo {1, 2})" "set (set_iter demo {1, 2}) = {1, 2}"
    unfolding it by auto
  have cands: "candidates [1, 2 :: int] = [[1], [2], [1, 2]]"
    by (simp add: candidates_def upt_rec)
  have det: "\<forall>c\<in>set (candidates (set_iter demo {1, 2})).
          \<forall>w0. verdict demo ''/out/fuzzer'' ''crashes/a'' w0 c = (1 \<in> set c)"
    unfolding it cands by (simp add: demo_simps)
  define X where "X =
      {S :: int set. S \<subseteq> {1, 2} \<and> S \<noteq> {} \<and> 1 \<in> S \<and> (\<forall>S'. S' \<noteq> {} \<and> S' \<subset> S \<longrightarrow> 1 \<notin> S')}"
  have "\<exists>crashes log w'.
      process_crash demo 0 ''/out/fuzzer'' ''crashes/a'' ''crashes'' = (Inr crashes, log, w') \<and>
      set ` set crashes = X"
    unfolding X_def
    by (rule minimizer_minimal_nonempty
        [where crash = "\<lambda>S. 1 \<in> S", OF nf ex cr parse ne iter det])
  then obtain crashes log w' where
      a: "process_crash demo 0 ''/out/fuzzer'' ''crashes/a'' ''crashes'' = (Inr crashes, log, w')"
      and b: "set ` set crashes = X"
    by blast
  have "crashes = [[1]]" using a unfolding run by simp
  then have "set ` set [[1 :: int]] = X" using b by simp
  then show ?thesis unfolding X_def using run by (rule conjI [rotated])
qed

text \<open>
  The claim as stated fails on a binary that crashes whatever is enabled: the returned
  set \<open>{1}\<close> has the proper subset \<open>{}\<close>, whose run is classified as a crash as well, and
  that subset, which has no proper subset at all, is not returned.
\<close>

theorem minimizer_minimal_counterexample:
  "process_crash demo 0 ''/out/fuzzer'' ''crashes/always'' ''crashes''
     = (Inr [[1]], [(None, True), (Some [1], True)], 2) \<and>
   verdict demo ''/out/fuzzer'' ''crashes/always'' 0 [1] \<and>
   verdict demo ''/out/fuzzer'' ''crashes/always'' 0 [] \<and>
   set ([] :: int list) \<subset> set [1] \<and>
   set ([] :: int list) \<notin> set ` set [[1]]"
  by (auto simp: demo_simps)

section \<open>The crashes parser and the minimizer's input\<close>

text \<open>
  C10. The crashes parser returns one set, the IDs of the lines with the triggered
  marker; lines without that marker, those with only the reached marker among them, do
  not change its result, well-formed or not; and the crash sets and the runs of
  \<open>process_crash\<close> depend on the baseline output only through the verdict of \<open>isCrash\<close>
  and the lines with the triggered marker.
\<close>

theorem crashes_parser_ignores_reached:
  "parseFixReverterLog out =
     (if \<forall>l\<in>set (split out CHR 0x0A). triggered_line l \<longrightarrow> (\<exists>i. injectionID l = Inr i)
      then Inr {i. \<exists>l\<in>set (split out CHR 0x0A). triggered_line l \<and> injectionID l = Inr i}
      else Inl ValueError) \<and>
   (filter triggered_line (split out CHR 0x0A) = filter triggered_line (split out' CHR 0x0A)
      \<longrightarrow> parseFixReverterLog out = parseFixReverterLog out') \<and>
   (execute ext wA (trial_call ext bin p None) = (rA, w1) \<and>
    execute ext wB (trial_call ext bin p None) = (rB, w1) \<and>
    isCrash ext rA bin = isCrash ext rB bin \<and>
    filter triggered_line (split (output rA) CHR 0x0A) =
      filter triggered_line (split (output rB) CHR 0x0A)
      \<longrightarrow> fst (process_crash ext wA bin p d) = fst (process_crash ext wB bin p d) \<and>
          fst (snd (process_crash ext wA bin p d)) = fst (snd (process_crash ext wB bin p d)))"
proof (intro conjI impI)
  show "parseFixReverterLog out =
     (if \<forall>l\<in>set (split out CHR 0x0A). triggered_line l \<longrightarrow> (\<exists>i. injectionID l = Inr i)
      then Inr {i. \<exists>l\<in>set (split out CHR 0x0A). triggered_line l \<and> injectionID l = Inr i}
      else Inl ValueError)"
    unfolding parseFixReverterLog_def crashes_lines_spec [of "split out CHR 0x0A" "{}"]
    by simp
next
  assume "filter triggered_line (split out CHR 0x0A) = filter triggered_line (split out' CHR 0x0A)"
  then show "parseFixReverterLog out = parseFixReverterLog out'"
    unfolding parseFixReverterLog_def
    by (metis crashes_lines_filter)
next
  assume h: "execute ext wA (trial_call ext bin p None) = (rA, w1) \<and>
    execute ext wB (trial_call ext bin p None) = (rB, w1) \<and>
    isCrash ext rA bin = isCrash ext rB bin \<and>
    filter triggered_line (split (output rA) CHR 0x0A) =
      filter triggered_line (split (output rB) CHR 0x0A)"
  then have "parseFixReverterLog (output rA) = parseFixReverterLog (output rB)"
    unfolding parseFixReverterLog_def
    by (metis crashes_lines_filter)
  then have "process_crash ext wA bin p d = process_crash ext wB bin p d \<or>
      prefix ''oom-'' (basename p) \<or> prefix ''timeout-'' (basename p)"
    using h by (simp add: process_crash_def Let_def)
  then have "fst (process_crash ext wA bin p d) = fst (process_crash ext wB bin p d) \<and>
      fst (snd (process_crash ext wA bin p d)) = fst (snd (process_crash ext wB bin p d))"
    by (auto simp: process_crash_def Let_def)
  then show "fst (process_crash ext wA bin p d) = fst (process_crash ext wB bin p d)"
    and "fst (snd (process_crash ext wA bin p d)) = fst (snd (process_crash ext wB bin p d))"
    by simp_all
qed

theorem crashes_parser_ignores_reached_witness:
  "parseFixReverterLog ''reached bug index x\<newline>triggered bug index 1\<newline>reached bug index 9''
     = parseFixReverterLog ''triggered bug index 1'' \<and>
   parseFixReverterLog ''triggered bug index 1'' = Inr {1} \<and>
   fst (process_crash demo 7 ''/out/fuzzer'' ''crashes/a'' ''crashes'')
     = fst (process_crash demo 0 ''/out/fuzzer'' ''crashes/a'' ''crashes'') \<and>
   fst (execute demo 7 (trial_call demo ''/out/fuzzer'' ''crashes/a'' None))
     \<noteq> fst (execute demo 0 (trial_call demo ''/out/fuzzer'' ''crashes/a'' None))"
proof -
  let ?r7 = "\<lparr>retcode = 1,
      output = ''reached bug index 9\<newline>triggered bug index 1\<newline>triggered bug index 2\<newline>ERROR'',
      timed_out = False\<rparr>"
  let ?r0 = "\<lparr>retcode = 1,
      output = ''triggered bug index 1\<newline>triggered bug index 2\<newline>ERROR'',
      timed_out = False\<rparr>"
  have f: "filter triggered_line
          (split ''reached bug index x\<newline>triggered bug index 1\<newline>reached bug index 9'' CHR 0x0A)
        = filter triggered_line (split ''triggered bug index 1'' CHR 0x0A)"
    by (simp add: parse_simps)
  note inst = crashes_parser_ignores_reached
      [where out = "''reached bug index x\<newline>triggered bug index 1\<newline>reached bug index 9''"
         and out' = "''triggered bug index 1''"
         and ext = demo and wA = 7 and wB = 0 and bin = "''/out/fuzzer''"
         and p = "''crashes/a''" and rA = ?r7 and rB = ?r0 and ?w1.0 = 1 and d = "''crashes''"]
  have 1: "parseFixReverterLog ''reached bug index x\<newline>triggered bug index 1\<newline>reached bug index 9''
     = parseFixReverterLog ''triggered bug index 1''"
    using inst [THEN conjunct2, THEN conjunct1] f by (rule mp)
  have 2: "parseFixReverterLog ''triggered bug index 1'' = Inr {1}"
    by (simp add: parse_simps)
  have e7: "execute demo 7 (trial_call demo ''/out/fuzzer'' ''crashes/a'' None) = (?r7, 1)"
    by (simp add: demo_simps)
  have e0: "execute demo 0 (trial_call demo ''/out/fuzzer'' ''crashes/a'' None) = (?r0, 1)"
    by (simp add: demo_simps)
  have c: "isCrash demo ?r7 ''/out/fuzzer'' = isCrash demo ?r0 ''/out/fuzzer''"
    by (simp add: demo_simps)
  have g: "filter triggered_line (split (output ?r7) CHR 0x0A) =
      filter triggered_line (split (output ?r0) CHR 0x0A)"
    by (simp add: parse_simps)
  have 3: "fst (process_crash demo 7 ''/out/fuzzer'' ''crashes/a'' ''crashes'')
     = fst (process_crash demo 0 ''/out/fuzzer'' ''crashes/a'' ''crashes'')"
    using inst [THEN conjunct2, THEN conjunct2] e7 e0 c g by blast
  have 4: "fst (execute demo 7 (trial_call demo ''/out/fuzzer'' ''crashes/a'' None))
     \<noteq> fst (execute demo 0 (trial_call demo ''/out/fuzzer'' ''crashes/a'' None))"
    unfolding e7 e0 by simp
  show ?thesis using 1 2 3 4 by blast
qed

section \<open>Properties of the corpus walk\<close>

lemma stored_step:
  "stored crashes stores \<Longrightarrow>
   stored (crashes(get_crash_key c \<mapsto> c)) (stores @ [(get_crash_key c, c)])"
  by (auto simp: stored_def)

lemma crashset_loop_stored:
  "stored crashes stores \<Longrightarrow>
   crashset_loop ext path d sets crashes stores = (crashes', stores') \<Longrightarrow>
   stored crashes' stores'"
proof (induction sets arbitrary: crashes stores)
  case Nil
  then show ?case by simp
next
  case (Cons s sets)
  let ?c = "Crash (relpath ext path d) s"
  have "stored (crashes(get_crash_key ?c \<mapsto> ?c)) (stores @ [(get_crash_key ?c, ?c)])"
    using Cons.prems(1) by (rule stored_step)
  moreover have "crashset_loop ext path d sets (crashes(get_crash_key ?c \<mapsto> ?c))
      (stores @ [(get_crash_key ?c, ?c)]) = (crashes', stores')"
    using Cons.prems(2) by (simp add: Let_def)
  ultimately show ?case by (rule Cons.IH)
qed

lemma filename_loop_stored:
  "stored crashes stores \<Longrightarrow>
   filename_loop ext w bin d root names crashes stores = (Inr (crashes', stores'), w') \<Longrightarrow>
   stored crashes' stores'"
proof (induction names arbitrary: w crashes stores)
  case Nil
  then show ?case by simp
next
  case (Cons n names)
  obtain res log w1 where pc: "process_crash ext w bin (path_join root n) d = (res, log, w1)"
    by (metis prod_cases3)
  show ?case
  proof (cases res)
    case (Inl e)
    then show ?thesis using Cons.prems(2) pc by (simp add: Let_def)
  next
    case (Inr sets)
    obtain c1 s1 where cl: "crashset_loop ext (path_join root n) d sets crashes stores = (c1, s1)"
      by (cases "crashset_loop ext (path_join root n) d sets crashes stores") auto
    have "stored c1 s1" using Cons.prems(1) cl by (rule crashset_loop_stored)
    moreover have "filename_loop ext w1 bin d root names c1 s1 = (Inr (crashes', stores'), w')"
      using Cons.prems(2) pc Inr cl by (simp add: Let_def)
    ultimately show ?thesis by (rule Cons.IH)
  qed
qed

lemma walk_loop_stored:
  "stored crashes stores \<Longrightarrow>
   walk_loop ext w bin d entries crashes stores = (Inr (crashes', stores'), w') \<Longrightarrow>
   stored crashes' stores'"
proof (induction entries arbitrary: w crashes stores)
  case Nil
  then show ?case by simp
next
  case (Cons entry entries)
  obtain root dirs names where entry: "entry = (root, dirs, names)" by (cases entry) auto
  obtain res w1 where fl: "filename_loop ext w bin d root names crashes stores = (res, w1)"
    by (cases "filename_loop ext w bin d root names crashes stores") auto
  show ?case
  proof (cases res)
    case (Inl e)
    then show ?thesis using Cons.prems(2) entry fl by simp
  next
    case (Inr cs)
    obtain c1 s1 where cs: "cs = (c1, s1)" by (cases cs) auto
    have "stored c1 s1" using Cons.prems(1) fl Inr cs by (auto intro: filename_loop_stored)
    moreover have "walk_loop ext w1 bin d entries c1 s1 = (Inr (crashes', stores'), w')"
      using Cons.prems(2) entry fl Inr cs by simp
    ultimately show ?thesis by (rule Cons.IH)
  qed
qed

lemma map_of_rev_last:
  assumes "j < length stores"
      and "\<forall>l. j < l \<and> l < length stores \<longrightarrow> fst (stores ! l) \<noteq> fst (stores ! j)"
  shows "map_of (rev stores) (fst (stores ! j)) = Some (snd (stores ! j))"
proof -
  let ?k = "fst (stores ! j)"
  have split: "stores = take j stores @ stores ! j # drop (Suc j) stores"
    using assms(1) by (rule id_take_nth_drop)
  have "?k \<notin> fst ` set (drop (Suc j) stores)"
  proof
    assume "?k \<in> fst ` set (drop (Suc j) stores)"
    then obtain e where e: "e \<in> set (drop (Suc j) stores)" "fst e = ?k" by auto
    then obtain i where i: "i < length (drop (Suc j) stores)" "drop (Suc j) stores ! i = e"
      by (metis in_set_conv_nth)
    then have "Suc j + i < length stores" "stores ! (Suc j + i) = e" by auto
    then show False using assms(2) e(2) by (metis less_add_Suc1 add_Suc)
  qed
  then have none: "map_of (rev (drop (Suc j) stores)) ?k = None"
    by (simp add: map_of_eq_None_iff)
  have "rev stores = rev (drop (Suc j) stores) @ (stores ! j) # rev (take j stores)"
    by (subst split) simp
  then have "map_of (rev stores) ?k =
      map_of (rev (drop (Suc j) stores) @ (stores ! j) # rev (take j stores)) ?k"
    by simp
  also have "\<dots> = map_of ((stores ! j) # rev (take j stores)) ?k"
    using none by (simp add: map_add_def)
  also have "\<dots> = Some (snd (stores ! j))"
    by (cases "stores ! j") simp
  finally show ?thesis .
qed

text \<open>
  C9. The mapping that \<open>do_crashes_run\<close> returns holds, under each key, one crash: the
  one of the last (testcase, crash set) pair stored under that key. So of two pairs with
  the same key the later one is kept, whatever the testcases are. Every pair is stored
  under the key of its crash set, and the mapping has no other keys.
\<close>

theorem last_write_wins:
  assumes "do_crashes_run ext w bin d = (Inr (crashes, stores), w')"
  shows "(\<forall>e\<in>set stores. fst e = get_crash_key (snd e)) \<and>
         dom crashes = fst ` set stores \<and>
         (\<forall>i j. i < j \<and> j < length stores \<and> fst (stores ! i) = fst (stores ! j) \<and>
            (\<forall>l. j < l \<and> l < length stores \<longrightarrow> fst (stores ! l) \<noteq> fst (stores ! j))
            \<longrightarrow> crashes (fst (stores ! i)) = Some (snd (stores ! j)))"
proof -
  have "stored Map.empty []" by (simp add: stored_def)
  then have st: "stored crashes stores"
    using assms unfolding do_crashes_run_def by (rule walk_loop_stored)
  then have m: "crashes = map_of (rev stores)" by (simp add: stored_def)
  have "dom crashes = fst ` set stores" unfolding m by (simp add: dom_map_of_conv_image_fst)
  moreover have "\<forall>i j. i < j \<and> j < length stores \<and> fst (stores ! i) = fst (stores ! j) \<and>
            (\<forall>l. j < l \<and> l < length stores \<longrightarrow> fst (stores ! l) \<noteq> fst (stores ! j))
            \<longrightarrow> crashes (fst (stores ! i)) = Some (snd (stores ! j))"
    unfolding m using map_of_rev_last [of _ stores] by simp
  ultimately show ?thesis using st by (simp add: stored_def)
qed

theorem last_write_wins_witness:
  "fst (do_crashes_run demo 0 ''/out/fuzzer'' ''crashes'') =
     Inr ([''1'' \<mapsto> Crash ''always'' [1]],
          [(''1'', Crash ''a'' [1]), (''1'', Crash ''always'' [1])]) \<and>
   [''1'' \<mapsto> Crash ''always'' [1]] ''1'' = Some (Crash ''always'' [1])"
proof -
  let ?m = "[''1'' \<mapsto> Crash ''always'' [1]]"
  let ?st = "[(''1'', Crash ''a'' [1]), (''1'', Crash ''always'' [1])]"
  have run: "do_crashes_run demo 0 ''/out/fuzzer'' ''crashes'' = (Inr (?m, ?st), 2)"
    by (simp add: demo_simps do_crashes_run_def path_join_def get_crash_key_def Let_def)
  have "?m (fst (?st ! 0)) = Some (snd (?st ! 1))"
    using last_write_wins [OF run, THEN conjunct2, THEN conjunct2, rule_format, of 0 1]
    by simp
  then show ?thesis using run by simp
qed

end
